theory Spec2Isabelle
  imports Complex_Main "HOL-Library.Word" "HOL-Library.Log_Nat" "HOL-Library.Monad_Syntax"
begin

section \<open>Numbers of the language\<close>

text \<open>
  A JavaScript number is an IEEE-754 binary64 value: not-a-number, an infinity or a finite
  value. The finite values are carried as reals; every arithmetic operation rounds its exact
  result to the nearest binary64 value (ties to even), as the language does. Zeros carry no
  sign: the sign of a zero could only be observed here by dividing by it.
\<close>

datatype jsnum = NaN | NegInf | Fin real | PosInf

text \<open>The number of digits of a positive integer in a base.\<close>

function digits_len :: "int \<Rightarrow> int \<Rightarrow> nat" where
  "digits_len bs a = (if 0 < a \<and> 1 < bs then Suc (digits_len bs (a div bs)) else 0)"
  by pat_completeness auto
termination
  by (relation "measure (\<lambda>(bs, a). nat a)") (auto simp: int_div_less_self)

declare digits_len.simps [simp del]

text \<open>\<open>ilog bs x\<close> is the integer \<open>e\<close> with \<open>bs^e \<le> x < bs^(e+1)\<close>, for \<open>x > 0\<close>; \<open>powb bs e\<close>
  is \<open>bs^e\<close>.\<close>

definition ilog :: "int \<Rightarrow> real \<Rightarrow> int" where
  "ilog bs x = (if 1 \<le> x then int (digits_len bs \<lfloor>x\<rfloor>) - 1
                else - int (digits_len bs (\<lceil>1 / x\<rceil> - 1)))"

definition powb :: "int \<Rightarrow> int \<Rightarrow> real" where
  "powb bs e = (if 0 \<le> e then of_int bs ^ nat e else 1 / of_int bs ^ nat (- e))"

text \<open>Rounding to the nearest integer, a tie going to the even one.\<close>

definition rne :: "real \<Rightarrow> int" where
  "rne x = (let n = \<lfloor>x\<rfloor>; f = x - of_int n
            in if f < 1 / 2 then n else if 1 / 2 < f then n + 1
               else if even n then n else n + 1)"

text \<open>
  \<open>fl x\<close> is \<open>x\<close> rounded to 53 significant bits, the exponent not going below that of the
  subnormal numbers. A result of magnitude \<open>2^1024\<close> or more is an overflow (\<open>js_round\<close>).
\<close>

definition fl :: "real \<Rightarrow> real" where
  "fl x = (if x = 0 then 0
           else let e = max (ilog 2 \<bar>x\<bar>) (- 1022) - 52
                in of_int (rne (x / powb 2 e)) * powb 2 e)"

definition js_round :: "real \<Rightarrow> jsnum" where
  "js_round x = (let y = fl x
                 in if y \<noteq> 0 \<and> 1024 \<le> ilog 2 \<bar>y\<bar> then (if 0 < y then PosInf else NegInf)
                    else Fin y)"

text \<open>A decimal literal of the source denotes the binary64 value nearest to it.\<close>

definition lit :: "real \<Rightarrow> jsnum" where
  "lit x = js_round x"

fun isNaN :: "jsnum \<Rightarrow> bool" where
  "isNaN NaN = True"
| "isNaN _ = False"

fun js_neg :: "jsnum \<Rightarrow> jsnum" where
  "js_neg NaN = NaN"
| "js_neg NegInf = PosInf"
| "js_neg PosInf = NegInf"
| "js_neg (Fin x) = Fin (- x)"

fun js_add :: "jsnum \<Rightarrow> jsnum \<Rightarrow> jsnum" where
  "js_add NaN _ = NaN"
| "js_add _ NaN = NaN"
| "js_add PosInf NegInf = NaN"
| "js_add NegInf PosInf = NaN"
| "js_add PosInf _ = PosInf"
| "js_add _ PosInf = PosInf"
| "js_add NegInf _ = NegInf"
| "js_add _ NegInf = NegInf"
| "js_add (Fin x) (Fin y) = js_round (x + y)"

definition js_sub :: "jsnum \<Rightarrow> jsnum \<Rightarrow> jsnum" where
  "js_sub x y = js_add x (js_neg y)"

text \<open>The sign of a number, as \<open>-1\<close>, \<open>0\<close> or \<open>1\<close> (of no use on \<open>NaN\<close>).\<close>

fun js_sgn :: "jsnum \<Rightarrow> int" where
  "js_sgn NaN = 0"
| "js_sgn NegInf = - 1"
| "js_sgn PosInf = 1"
| "js_sgn (Fin x) = (if x < 0 then - 1 else if x = 0 then 0 else 1)"

definition signed_inf :: "int \<Rightarrow> jsnum" where
  "signed_inf s = (if s < 0 then NegInf else PosInf)"

fun js_mul :: "jsnum \<Rightarrow> jsnum \<Rightarrow> jsnum" where
  "js_mul NaN _ = NaN"
| "js_mul _ NaN = NaN"
| "js_mul (Fin x) (Fin y) = js_round (x * y)"
| "js_mul x y = (if js_sgn x * js_sgn y = 0 then NaN else signed_inf (js_sgn x * js_sgn y))"

fun js_div :: "jsnum \<Rightarrow> jsnum \<Rightarrow> jsnum" where
  "js_div NaN _ = NaN"
| "js_div _ NaN = NaN"
| "js_div (Fin x) (Fin y) =
     (if y = 0 then (if x = 0 then NaN else signed_inf (js_sgn (Fin x)))
      else js_round (x / y))"
| "js_div (Fin x) _ = Fin 0"
| "js_div x (Fin y) = signed_inf (js_sgn x * (if y < 0 then - 1 else 1))"
| "js_div _ _ = NaN"

text \<open>The comparisons \<open><=\<close> and \<open><\<close>: false as soon as an operand is \<open>NaN\<close>.\<close>

fun js_le :: "jsnum \<Rightarrow> jsnum \<Rightarrow> bool" where
  "js_le NaN _ = False"
| "js_le _ NaN = False"
| "js_le NegInf _ = True"
| "js_le _ PosInf = True"
| "js_le (Fin x) (Fin y) = (x \<le> y)"
| "js_le _ _ = False"

fun js_lt :: "jsnum \<Rightarrow> jsnum \<Rightarrow> bool" where
  "js_lt NaN _ = False"
| "js_lt _ NaN = False"
| "js_lt PosInf _ = False"
| "js_lt _ NegInf = False"
| "js_lt (Fin x) (Fin y) = (x < y)"
| "js_lt _ _ = True"

text \<open>\<open>Math.max\<close> and \<open>Math.min\<close> of two numbers: \<open>NaN\<close> as soon as an argument is.\<close>

definition Math_max :: "jsnum \<Rightarrow> jsnum \<Rightarrow> jsnum" where
  "Math_max x y = (if isNaN x \<or> isNaN y then NaN else if js_le x y then y else x)"

definition Math_min :: "jsnum \<Rightarrow> jsnum \<Rightarrow> jsnum" where
  "Math_min x y = (if isNaN x \<or> isNaN y then NaN else if js_le x y then x else y)"


section \<open>Values and the conversions \<open>parseInt\<close> and \<open>parseFloat\<close>\<close>

text \<open>
  The values a caller can pass where the documentation asks for a number or a string:
  the primitive values whose conversion to a string cannot raise. A string is a list of
  code units below 256.
\<close>

datatype jsval = JUndefined | JNull | JBool bool | JNum jsnum | JStr string

text \<open>White space and line terminators, as \<open>\s\<close> of a pattern and the trimming of
  \<open>parseInt\<close> and \<open>parseFloat\<close> know them: tab, line feed, vertical tab, form feed,
  carriage return, space, no-break space.\<close>

definition is_ws :: "char \<Rightarrow> bool" where
  "is_ws c = (c \<in> set [CHR 0x09, CHR 0x0A, CHR 0x0B, CHR 0x0C, CHR 0x0D, CHR 0x20, CHR 0xA0])"

text \<open>The value of a digit or letter as a digit of a radix up to 36.\<close>

definition digit_val :: "char \<Rightarrow> int option" where
  "digit_val c =
     (let n = (of_char c :: int)
      in if 48 \<le> n \<and> n \<le> 57 then Some (n - 48)
         else if 97 \<le> n \<and> n \<le> 122 then Some (n - 87)
         else if 65 \<le> n \<and> n \<le> 90 then Some (n - 55)
         else None)"

definition is_digit_in :: "int \<Rightarrow> char \<Rightarrow> bool" where
  "is_digit_in R c = (case digit_val c of None \<Rightarrow> False | Some d \<Rightarrow> d < R)"

definition digits_value :: "int \<Rightarrow> string \<Rightarrow> int" where
  "digits_value R z = foldl (\<lambda>a c. a * R + (case digit_val c of None \<Rightarrow> 0 | Some d \<Rightarrow> d)) 0 z"

text \<open>
  \<open>parseInt(string, radix)\<close> on a string; \<open>radix = 0\<close> stands for an absent radix. Leading
  white space is dropped, a sign is read, a \<open>0x\<close> prefix selects radix 16 when the radix is
  absent or 16, and the longest run of digits of the radix is the result; \<open>NaN\<close> when there
  is none. (Beyond 20 significant digits the language lets an implementation approximate the
  value; the model takes the nearest binary64 value.)
\<close>

definition parseInt_string :: "string \<Rightarrow> int \<Rightarrow> jsnum" where
  "parseInt_string inputString radix =
     (let S = dropWhile is_ws inputString;
          neg = (S \<noteq> [] \<and> hd S = CHR ''-'');
          S1 = (if S \<noteq> [] \<and> (hd S = CHR ''+'' \<or> hd S = CHR ''-'') then tl S else S);
          hexpre = ((radix = 0 \<or> radix = 16) \<and> (take 2 S1 = ''0x'' \<or> take 2 S1 = ''0X''));
          R = (if hexpre then 16 else if radix = 0 then 10 else radix);
          S2 = (if hexpre then drop 2 S1 else S1);
          Z = takeWhile (is_digit_in R) S2
      in if radix \<noteq> 0 \<and> (radix < 2 \<or> 36 < radix) then NaN
         else if Z = [] then NaN
         else js_round ((if neg then - 1 else 1) * of_int (digits_value R Z)))"

text \<open>
  \<open>parseInt\<close> on a finite number first writes the number as a string. The language writes
  the shortest decimal that reads back as the same number: \<open>sci x\<close> gives the exponent and
  the first digit of that decimal in scientific form, for \<open>x > 0\<close>. They are those of the
  exact value \<open>x\<close>, unless the next one-digit decimal above \<open>x\<close> already reads back as \<open>x\<close>.
  With an exponent from \<open>-6\<close> to \<open>20\<close> the string is in positional notation and \<open>parseInt\<close>
  reads its integer part; otherwise the string is in exponent notation (\<open>9.5e-7\<close>,
  \<open>1e+21\<close>) and \<open>parseInt\<close> reads its first digit.
\<close>

definition sci :: "real \<Rightarrow> int \<times> int" where
  "sci x = (let k = ilog 10 x; d = \<lfloor>x / powb 10 k\<rfloor>
            in if fl (of_int (d + 1) * powb 10 k) = x
               then (if d = 9 then (k + 1, 1) else (k, d + 1))
               else (k, d))"

definition parseInt_number :: "real \<Rightarrow> jsnum" where
  "parseInt_number x =
     (if x = 0 then Fin 0
      else let (k, d) = sci \<bar>x\<bar>
           in if - 7 < k \<and> k < 21 then Fin (sgn x * of_int \<lfloor>\<bar>x\<bar>\<rfloor>)
              else Fin (sgn x * of_int d))"

fun parseInt :: "jsval \<Rightarrow> jsnum" where
  "parseInt JUndefined = parseInt_string ''undefined'' 0"
| "parseInt JNull = parseInt_string ''null'' 0"
| "parseInt (JBool v) = parseInt_string (if v then ''true'' else ''false'') 0"
| "parseInt (JNum NaN) = parseInt_string ''NaN'' 0"
| "parseInt (JNum PosInf) = parseInt_string ''Infinity'' 0"
| "parseInt (JNum NegInf) = parseInt_string ''-Infinity'' 0"
| "parseInt (JNum (Fin x)) = parseInt_number x"
| "parseInt (JStr s) = parseInt_string s 0"

definition is_dec :: "char \<Rightarrow> bool" where
  "is_dec c = is_digit_in 10 c"

text \<open>
  \<open>parseFloat\<close> on a string: leading white space is dropped and the longest prefix that is
  a decimal literal (\<open>Infinity\<close>, or digits with an optional fraction and an optional
  exponent, after an optional sign) is the result; \<open>NaN\<close> when there is none.
\<close>

definition parseFloat_string :: "string \<Rightarrow> jsnum" where
  "parseFloat_string inputString =
     (let S = dropWhile is_ws inputString;
          neg = (S \<noteq> [] \<and> hd S = CHR ''-'');
          S1 = (if S \<noteq> [] \<and> (hd S = CHR ''+'' \<or> hd S = CHR ''-'') then tl S else S);
          ip = takeWhile is_dec S1;
          R1 = dropWhile is_dec S1;
          dot = (R1 \<noteq> [] \<and> hd R1 = CHR ''.'');
          fp = (if dot then takeWhile is_dec (tl R1) else []);
          R2 = (if dot then dropWhile is_dec (tl R1) else R1);
          R3 = (if R2 \<noteq> [] \<and> (hd R2 = CHR ''e'' \<or> hd R2 = CHR ''E'') then tl R2 else []);
          eneg = (R3 \<noteq> [] \<and> hd R3 = CHR ''-'');
          R4 = (if R3 \<noteq> [] \<and> (hd R3 = CHR ''+'' \<or> hd R3 = CHR ''-'') then tl R3 else R3);
          ed = takeWhile is_dec R4;
          ex = (if eneg then - 1 else 1) * digits_value 10 ed;
          mag = (of_int (digits_value 10 ip) + of_int (digits_value 10 fp) / 10 ^ length fp)
                * powb 10 ex
      in if take 8 S1 = ''Infinity'' then (if neg then NegInf else PosInf)
         else if ip = [] \<and> fp = [] then NaN
         else js_round ((if neg then - 1 else 1) * mag))"

text \<open>\<open>parseFloat\<close> on a number writes it as a string and reads it back: the same number.\<close>

fun parseFloat :: "jsval \<Rightarrow> jsnum" where
  "parseFloat JUndefined = parseFloat_string ''undefined''"
| "parseFloat JNull = parseFloat_string ''null''"
| "parseFloat (JBool v) = parseFloat_string (if v then ''true'' else ''false'')"
| "parseFloat (JNum n) = n"
| "parseFloat (JStr s) = parseFloat_string s"

section \<open>The colour object\<close>

text \<open>The four fields; \<open>None\<close> is \<open>null\<close>. The constructor sets all four to \<open>null\<close>.\<close>

record color =
  r :: "jsnum option"
  g :: "jsnum option"
  b :: "jsnum option"
  opacity :: "jsnum option"

definition SiteColor :: color where
  "SiteColor = \<lparr>r = None, g = None, b = None, opacity = None\<rparr>"

definition numberBound :: "jsnum \<Rightarrow> jsnum \<Rightarrow> jsnum \<Rightarrow> jsnum" where
  "numberBound num mn mx = Math_min (Math_max num mn) mx"

text \<open>Each method returns \<open>this\<close>: the model returns the object after the call.\<close>

definition setRed :: "jsval \<Rightarrow> color \<Rightarrow> color" where
  "setRed red this =
     (let red' = numberBound (parseInt red) (Fin 0) (Fin 255)
      in this\<lparr>r := (if isNaN red' then None else Some red')\<rparr>)"

definition setGreen :: "jsval \<Rightarrow> color \<Rightarrow> color" where
  "setGreen green this =
     (let green' = numberBound (parseInt green) (Fin 0) (Fin 255)
      in this\<lparr>g := (if isNaN green' then None else Some green')\<rparr>)"

definition setBlue :: "jsval \<Rightarrow> color \<Rightarrow> color" where
  "setBlue blue this =
     (let blue' = numberBound (parseInt blue) (Fin 0) (Fin 255)
      in this\<lparr>b := (if isNaN blue' then None else Some blue')\<rparr>)"

definition setOpacity :: "jsval \<Rightarrow> color \<Rightarrow> color" where
  "setOpacity op this =
     (let op' = numberBound (parseFloat op) (Fin 0) (Fin 1)
      in this\<lparr>opacity := (if isNaN op' then None else Some op')\<rparr>)"


section \<open>The patterns\<close>

text \<open>
  The four regular expressions, each anchored at both ends and case-insensitive, as the
  functions that return their capture groups. In each of them a repeated class is followed
  by a character outside the class, so a match is unique: a run of white space or of digits
  is taken whole.
\<close>

definition is_hex :: "char \<Rightarrow> bool" where
  "is_hex c = is_digit_in 16 c"

definition lower :: "char \<Rightarrow> char" where
  "lower c = (let n = (of_char c :: int) in if 65 \<le> n \<and> n \<le> 90 then char_of (n + 32) else c)"

text \<open>A literal prefix, letters compared without case.\<close>

fun lit_ci :: "string \<Rightarrow> string \<Rightarrow> string option" where
  "lit_ci [] s = Some s"
| "lit_ci (p # ps) [] = None"
| "lit_ci (p # ps) (c # cs) = (if lower c = lower p then lit_ci ps cs else None)"

text \<open>\<open>\s*\<close>.\<close>

definition skip_ws :: "string \<Rightarrow> string" where
  "skip_ws s = dropWhile is_ws s"

text \<open>A captured class repeated \<open>{1,3}\<close> times: the token and the rest of the input.\<close>

definition tok13 :: "(char \<Rightarrow> bool) \<Rightarrow> string \<Rightarrow> (string \<times> string) option" where
  "tok13 P s = (let t = takeWhile P s
                in if 1 \<le> length t \<and> length t \<le> 3 then Some (t, dropWhile P s) else None)"

text \<open>\<open>/^#([0-9a-f]{3}|[0-9a-f]{6})$/i\<close>\<close>

definition HEX_REGEXP :: "string \<Rightarrow> string option" where
  "HEX_REGEXP s =
     (case s of
        [] \<Rightarrow> None
      | c # ds \<Rightarrow> if c = CHR ''#'' \<and> (length ds = 3 \<or> length ds = 6) \<and> list_all is_hex ds
                  then Some ds else None)"

text \<open>\<open>/^#?([a-f\d])([a-f\d])([a-f\d])$/i\<close>\<close>

definition SHORT_HEX_REGEXP :: "string \<Rightarrow> (char \<times> char \<times> char) option" where
  "SHORT_HEX_REGEXP s =
     (case (if s \<noteq> [] \<and> hd s = CHR ''#'' then tl s else s) of
        [x, y, z] \<Rightarrow> if is_hex x \<and> is_hex y \<and> is_hex z then Some (x, y, z) else None
      | _ \<Rightarrow> None)"

definition is_dec_or_dot :: "char \<Rightarrow> bool" where
  "is_dec_or_dot c = (is_dec c \<or> c = CHR ''.'')"

text \<open>\<open>/^rgb\(\s*([0-9]{1,3})\s*,\s*([0-9]{1,3})\s*,\s*([0-9]{1,3})\s*\)$/i\<close>\<close>

definition RGB_REGEXP :: "string \<Rightarrow> string list option" where
  "RGB_REGEXP s = do {
     t0 \<leftarrow> lit_ci ''rgb('' s;
     (c1, t1) \<leftarrow> tok13 is_dec (skip_ws t0);
     t2 \<leftarrow> lit_ci '','' (skip_ws t1);
     (c2, t3) \<leftarrow> tok13 is_dec (skip_ws t2);
     t4 \<leftarrow> lit_ci '','' (skip_ws t3);
     (c3, t5) \<leftarrow> tok13 is_dec (skip_ws t4);
     t6 \<leftarrow> lit_ci '')'' (skip_ws t5);
     if t6 = [] then Some [c1, c2, c3] else None
   }"

text \<open>\<open>/^rgba\(\s*([0-9]{1,3})\s*,\s*([0-9]{1,3})\s*,\s*([0-9]{1,3})\s*,\s*([0-9.]{1,3})\s*\)$/i\<close>\<close>

definition RGBA_REGEXP :: "string \<Rightarrow> string list option" where
  "RGBA_REGEXP s = do {
     t0 \<leftarrow> lit_ci ''rgba('' s;
     (c1, t1) \<leftarrow> tok13 is_dec (skip_ws t0);
     t2 \<leftarrow> lit_ci '','' (skip_ws t1);
     (c2, t3) \<leftarrow> tok13 is_dec (skip_ws t2);
     t4 \<leftarrow> lit_ci '','' (skip_ws t3);
     (c3, t5) \<leftarrow> tok13 is_dec (skip_ws t4);
     t6 \<leftarrow> lit_ci '','' (skip_ws t5);
     (c4, t7) \<leftarrow> tok13 is_dec_or_dot (skip_ws t6);
     t8 \<leftarrow> lit_ci '')'' (skip_ws t7);
     if t8 = [] then Some [c1, c2, c3, c4] else None
   }"

section \<open>The parsers\<close>

text \<open>
  \<open>parseInt(res[i] + res[j], 16)\<close>: an index beyond the string reads \<open>undefined\<close>, which
  \<open>+\<close> joins to a character as the text \<open>undefined\<close>; two of them add up to \<open>NaN\<close>.
\<close>

definition hex_pair :: "string \<Rightarrow> nat \<Rightarrow> nat \<Rightarrow> jsnum" where
  "hex_pair res i j =
     (if i < length res \<and> j < length res then parseInt_string [res ! i, res ! j] 16
      else if i < length res then parseInt_string (res ! i # ''undefined'') 16
      else if j < length res then parseInt_string (''undefined'' @ [res ! j]) 16
      else parseInt_string ''NaN'' 16)"

definition fillHex :: "string \<Rightarrow> color \<Rightarrow> color" where
  "fillHex hex this =
     (case HEX_REGEXP hex of
        None \<Rightarrow> this
      | Some res \<Rightarrow>
          let res' = (if length res = 3
                      then (case SHORT_HEX_REGEXP res of
                              Some (x, y, z) \<Rightarrow> [x, x, y, y, z, z]
                            | None \<Rightarrow> res)
                      else res)
          in setOpacity (JNum (Fin 1))
               (setBlue (JNum (hex_pair res' 4 5))
                 (setGreen (JNum (hex_pair res' 2 3))
                   (setRed (JNum (hex_pair res' 0 1)) this))))"

definition fillRgb :: "string \<Rightarrow> color \<Rightarrow> color" where
  "fillRgb rgb this =
     (case RGB_REGEXP rgb of
        None \<Rightarrow> this
      | Some res \<Rightarrow>
          setOpacity (JNum (Fin 1))
            (setBlue (JStr (res ! 2)) (setGreen (JStr (res ! 1)) (setRed (JStr (res ! 0)) this))))"

definition fillRgba :: "string \<Rightarrow> color \<Rightarrow> color" where
  "fillRgba rgba this =
     (case RGBA_REGEXP rgba of
        None \<Rightarrow> this
      | Some res \<Rightarrow>
          setOpacity (JStr (res ! 3))
            (setBlue (JStr (res ! 2)) (setGreen (JStr (res ! 1)) (setRed (JStr (res ! 0)) this))))"

definition fill :: "string \<Rightarrow> color \<Rightarrow> color" where
  "fill colorString this =
     (if HEX_REGEXP colorString \<noteq> None then fillHex colorString this
      else if RGB_REGEXP colorString \<noteq> None then fillRgb colorString this
      else if RGBA_REGEXP colorString \<noteq> None then fillRgba colorString this
      else this)"


section \<open>Transformations\<close>

text \<open>A field as an operand of arithmetic: \<open>null\<close> counts as \<open>0\<close>.\<close>

definition ToNumber :: "jsnum option \<Rightarrow> jsnum" where
  "ToNumber v = (case v of None \<Rightarrow> Fin 0 | Some n \<Rightarrow> n)"

definition darken :: "jsval \<Rightarrow> color \<Rightarrow> color" where
  "darken percent this =
     (let percent' = js_sub (Fin 1) (numberBound (parseFloat percent) (Fin 0) (Fin 1));
          this1 = setRed (JNum (js_mul (ToNumber (r this)) percent')) this;
          this2 = setGreen (JNum (js_mul (ToNumber (g this1)) percent')) this1
      in setBlue (JNum (js_mul (ToNumber (b this2)) percent')) this2)"

definition lighten :: "jsval \<Rightarrow> color \<Rightarrow> color" where
  "lighten percent this =
     (let percent' = js_add (Fin 1) (numberBound (parseFloat percent) (Fin 0) (Fin 1));
          this1 = setRed (JNum (js_mul (ToNumber (r this)) percent')) this;
          this2 = setGreen (JNum (js_mul (ToNumber (g this1)) percent')) this1
      in setBlue (JNum (js_mul (ToNumber (b this2)) percent')) this2)"

text \<open>
  The other colour may be the receiver itself: each step reads only the field that it then
  writes, so the values read are the same either way.
\<close>

definition blendWith :: "color \<Rightarrow> jsval \<Rightarrow> color \<Rightarrow> color" where
  "blendWith color percent this =
     (let percent' = numberBound (parseFloat percent) (Fin 0) (Fin 1);
          this1 = setRed (JNum (js_add (js_mul (js_sub (ToNumber (r color)) (ToNumber (r this)))
                                          percent') (ToNumber (r this)))) this;
          this2 = setGreen (JNum (js_add (js_mul (js_sub (ToNumber (g color)) (ToNumber (g this1)))
                                            percent') (ToNumber (g this1)))) this1
      in setBlue (JNum (js_add (js_mul (js_sub (ToNumber (b color)) (ToNumber (b this2)))
                                  percent') (ToNumber (b this2)))) this2)"

section \<open>Luminance and contrast\<close>

text \<open>
  \<open>Math.pow(base, exponent)\<close>. The special cases are those of the language. For a finite
  base other than 0 and a finite exponent other than 0 the language asks for an
  approximation of the exact power and leaves its precision to the implementation: \<open>pw\<close> is
  the implementation's approximation, and the result is that value as a number. A base that
  is zero counts as \<open>+0\<close>.
\<close>

definition Math_pow :: "(real \<Rightarrow> real \<Rightarrow> real) \<Rightarrow> jsnum \<Rightarrow> jsnum \<Rightarrow> jsnum" where
  "Math_pow pw base exponent =
     (case exponent of
        NaN \<Rightarrow> NaN
      | Fin y \<Rightarrow>
          if y = 0 then Fin 1
          else (case base of
                  NaN \<Rightarrow> NaN
                | PosInf \<Rightarrow> if 0 < y then PosInf else Fin 0
                | NegInf \<Rightarrow> if 0 < y then (if of_int \<lfloor>y\<rfloor> = y \<and> odd \<lfloor>y\<rfloor> then NegInf else PosInf)
                            else Fin 0
                | Fin x \<Rightarrow> if x = 0 then (if 0 < y then Fin 0 else PosInf)
                           else if x < 0 \<and> of_int \<lfloor>y\<rfloor> \<noteq> y then NaN
                           else js_round (pw x y))
      | PosInf \<Rightarrow>
          (case base of
             NaN \<Rightarrow> NaN
           | Fin x \<Rightarrow> if 1 < \<bar>x\<bar> then PosInf else if \<bar>x\<bar> = 1 then NaN else Fin 0
           | _ \<Rightarrow> PosInf)
      | NegInf \<Rightarrow>
          (case base of
             NaN \<Rightarrow> NaN
           | Fin x \<Rightarrow> if 1 < \<bar>x\<bar> then Fin 0 else if \<bar>x\<bar> = 1 then NaN else PosInf
           | _ \<Rightarrow> Fin 0))"

text \<open>The function mapped over the three channels.\<close>

definition linearize :: "(real \<Rightarrow> real \<Rightarrow> real) \<Rightarrow> jsnum \<Rightarrow> jsnum" where
  "linearize pw v =
     (let v' = js_div v (Fin 255)
      in if js_le v' (lit (3928 / 100000)) then js_div v' (lit (1292 / 100))
         else Math_pow pw (js_div (js_add v' (lit (55 / 1000))) (lit (1055 / 1000))) (lit (24 / 10)))"

text \<open>
  The three arguments are used only as operands of a division, which takes \<open>null\<close> as \<open>0\<close>
  and \<open>undefined\<close> as \<open>NaN\<close>; that conversion is written where the function is called.
\<close>

definition luminanace :: "(real \<Rightarrow> real \<Rightarrow> real) \<Rightarrow> jsnum \<Rightarrow> jsnum \<Rightarrow> jsnum \<Rightarrow> jsnum" where
  "luminanace pw rr gg bb =
     (let a = map (linearize pw) [rr, gg, bb]
      in js_add (js_add (js_mul (a ! 0) (lit (2126 / 10000))) (js_mul (a ! 1) (lit (7152 / 10000))))
                (js_mul (a ! 2) (lit (722 / 10000))))"

text \<open>An element of an array as a number; beyond the end it is \<open>undefined\<close>.\<close>

definition elem :: "jsnum option list \<Rightarrow> nat \<Rightarrow> jsnum" where
  "elem xs i = (if i < length xs then ToNumber (xs ! i) else NaN)"

definition contrast :: "(real \<Rightarrow> real \<Rightarrow> real) \<Rightarrow> jsnum option list \<Rightarrow> jsnum option list \<Rightarrow> jsnum" where
  "contrast pw rgb1 rgb2 =
     (let c = js_div (js_add (luminanace pw (elem rgb1 0) (elem rgb1 1) (elem rgb1 2)) (lit (5 / 100)))
                     (js_add (luminanace pw (elem rgb2 0) (elem rgb2 1) (elem rgb2 2)) (lit (5 / 100)))
      in if js_lt c (Fin 1) then js_div (Fin 1) c else c)"

definition toRgbArray :: "color \<Rightarrow> jsnum option list" where
  "toRgbArray this = [r this, g this, b this]"

definition getLuminance :: "(real \<Rightarrow> real \<Rightarrow> real) \<Rightarrow> color \<Rightarrow> jsnum" where
  "getLuminance pw this = luminanace pw (ToNumber (r this)) (ToNumber (g this)) (ToNumber (b this))"

definition compareContrastTo :: "(real \<Rightarrow> real \<Rightarrow> real) \<Rightarrow> color \<Rightarrow> color \<Rightarrow> jsnum" where
  "compareContrastTo pw color this = contrast pw (toRgbArray this) (toRgbArray color)"

section \<open>Serialisation\<close>

definition hexdigit :: "int \<Rightarrow> char" where
  "hexdigit d = ''0123456789abcdef'' ! nat (d mod 16)"

function hexstr :: "int \<Rightarrow> string" where
  "hexstr n = (if n < 16 then [hexdigit n] else hexstr (n div 16) @ [hexdigit (n mod 16)])"
  by pat_completeness auto
termination
  by (relation "measure nat") (auto simp: int_div_less_self)

declare hexstr.simps [simp del]

text \<open>
  \<open>toString(16)\<close> of a number. The fields hold what the setters store, and the sum that
  \<open>toHex\<close> renders is then an integer; the digits that a number with a fraction would have
  after the point are not modelled.
\<close>

fun radix16 :: "jsnum \<Rightarrow> string" where
  "radix16 NaN = ''NaN''"
| "radix16 PosInf = ''Infinity''"
| "radix16 NegInf = ''-Infinity''"
| "radix16 (Fin x) = (if x < 0 then ''-'' else []) @ hexstr \<lfloor>\<bar>x\<bar>\<rfloor>"

text \<open>\<open>x << k\<close>: the operand as a 32-bit integer (0 for \<open>NaN\<close> and the infinities), shifted
  within 32 bits and read as signed.\<close>

definition ToInt32 :: "jsnum \<Rightarrow> 32 word" where
  "ToInt32 x = (case x of Fin v \<Rightarrow> word_of_int (if v < 0 then - \<lfloor>- v\<rfloor> else \<lfloor>v\<rfloor>) | _ \<Rightarrow> 0)"

definition js_shl :: "jsnum \<Rightarrow> nat \<Rightarrow> jsnum" where
  "js_shl x k = Fin (real_of_int (sint (push_bit (k mod 32) (ToInt32 x))))"

definition toHex :: "color \<Rightarrow> string" where
  "toHex this =
     ''#'' @ drop 1 (radix16 (js_add (js_add (js_add (js_shl (Fin 1) 24) (js_shl (ToNumber (r this)) 16))
                                            (js_shl (ToNumber (g this)) 8))
                                    (ToNumber (b this))))"

text \<open>
  \<open>join\<close> writes \<open>null\<close> as the empty string and a number by its decimal text; \<open>numtext\<close> is
  the language's conversion of a number to that text.
\<close>

definition join :: "(jsnum \<Rightarrow> string) \<Rightarrow> jsnum option list \<Rightarrow> string" where
  "join numtext xs =
     concat (map (\<lambda>(i, v). (if i = 0 then [] else '', '') @ (case v of None \<Rightarrow> [] | Some n \<Rightarrow> numtext n))
                 (enumerate 0 xs))"

definition toRgb :: "(jsnum \<Rightarrow> string) \<Rightarrow> color \<Rightarrow> string" where
  "toRgb numtext this = ''rgb('' @ join numtext [r this, g this, b this] @ '')''"

definition toRgba :: "(jsnum \<Rightarrow> string) \<Rightarrow> color \<Rightarrow> string" where
  "toRgba numtext this = ''rgba('' @ join numtext [r this, g this, b this, opacity this] @ '')''"

definition toString :: "(jsnum \<Rightarrow> string) \<Rightarrow> color \<Rightarrow> string" where
  "toString numtext this = (if opacity this = Some (Fin 1) then toHex this else toRgba numtext this)"


section \<open>Arguments of any type\<close>





text \<open>
  The methods read a string only through the patterns and through the syntax of numbers.
  Both name a code unit above 255 only as white space (the same characters for \<open>\s\<close> and
  for the trimming of \<open>parseInt\<close> and \<open>parseFloat\<close>), and matching without case relates no
  code unit above 127 to a letter of a pattern. So a string is read as the string of code
  units below 256 in which white space above 255 has become the no-break space and every
  other code unit above 255 has become U+00FF, which is neither white space nor a character
  of a pattern or of a number.
\<close>

definition is_ws16 :: "16 word \<Rightarrow> bool" where
  "is_ws16 u = (u = 0x1680 \<or> (0x2000 \<le> u \<and> u \<le> 0x200A)
                \<or> u \<in> set [0x2028, 0x2029, 0x202F, 0x205F, 0x3000, 0xFEFF])"

definition Latin1 :: "16 word \<Rightarrow> char" where
  "Latin1 u = (if u < 256 then char_of (unat u) else if is_ws16 u then CHR 0xA0 else CHR 0xFF)"










section \<open>Properties\<close>

text \<open>The state invariant: a channel is \<open>null\<close> or an integer from 0 to 255, the opacity is
  \<open>null\<close> or a number from 0 to 1.\<close>

definition channel_ok :: "jsnum option \<Rightarrow> bool" where
  "channel_ok v =
     (case v of None \<Rightarrow> True | Some (Fin x) \<Rightarrow> x \<in> \<int> \<and> 0 \<le> x \<and> x \<le> 255 | Some _ \<Rightarrow> False)"

definition opacity_ok :: "jsnum option \<Rightarrow> bool" where
  "opacity_ok v = (case v of None \<Rightarrow> True | Some (Fin x) \<Rightarrow> 0 \<le> x \<and> x \<le> 1 | Some _ \<Rightarrow> False)"

definition invariant :: "color \<Rightarrow> bool" where
  "invariant this =
     (channel_ok (r this) \<and> channel_ok (g this) \<and> channel_ok (b this) \<and> opacity_ok (opacity this))"

text \<open>A number that is not a finite number with a fraction.\<close>

definition integral :: "jsnum \<Rightarrow> bool" where
  "integral n = (case n of Fin x \<Rightarrow> x \<in> \<int> | _ \<Rightarrow> True)"

text \<open>The exponent of the last bit kept by \<open>fl\<close>.\<close>

definition fexp :: "real \<Rightarrow> int" where
  "fexp x = max (ilog 2 \<bar>x\<bar>) (- 1022) - 52"

text \<open>The hexadecimal digits of either case, and the value of one.\<close>

definition hexchars :: string where
  "hexchars = ''0123456789abcdefABCDEF''"

definition hexval :: "char \<Rightarrow> int" where
  "hexval c = (case map_of (zip ''0123456789abcdef'' [0..15] @ zip ''ABCDEF'' [10..15]) c of
                 Some v \<Rightarrow> v | None \<Rightarrow> 0)"

text \<open>A number clamped to a range: nothing for \<open>NaN\<close>, the nearer end of the range for a
  number outside of it.\<close>

definition clamp_to :: "real \<Rightarrow> real \<Rightarrow> jsnum \<Rightarrow> jsnum option" where
  "clamp_to lo hi n =
     (case n of
        NaN \<Rightarrow> None
      | NegInf \<Rightarrow> Some (Fin lo)
      | PosInf \<Rightarrow> Some (Fin hi)
      | Fin x \<Rightarrow> Some (Fin (if x < lo then lo else if hi < x then hi else x)))"

text \<open>Truncation toward zero.\<close>

definition trunc :: "real \<Rightarrow> int" where
  "trunc x = (if x < 0 then - \<lfloor>- x\<rfloor> else \<lfloor>x\<rfloor>)"

text \<open>What a channel setter stores for a number: the number truncated toward zero and
  clamped to the range of a channel; \<open>null\<close> for \<open>NaN\<close> and the infinities.\<close>

definition truncated :: "jsnum \<Rightarrow> jsnum option" where
  "truncated v = (case v of Fin x \<Rightarrow> Some (Fin (of_int (min 255 (max 0 (trunc x))))) | _ \<Rightarrow> None)"

text \<open>A finite number other than 0 of magnitude below \<open>10^-6\<close>: the language writes it in
  exponent notation (\<open>9.5e-7\<close>).\<close>

definition tiny :: "jsnum \<Rightarrow> bool" where
  "tiny v = (case v of Fin x \<Rightarrow> x \<noteq> 0 \<and> \<bar>x\<bar> < 1 / 10 ^ 6 | _ \<Rightarrow> False)"

text \<open>A number that is not finite, or finite of magnitude at most 510.\<close>

definition small :: "jsnum \<Rightarrow> bool" where
  "small v = (case v of Fin x \<Rightarrow> \<bar>x\<bar> \<le> 510 | _ \<Rightarrow> True)"

text \<open>A colour whose three channels are set, each to an integer from 0 to 255.\<close>

definition channels_set :: "color \<Rightarrow> bool" where
  "channels_set this = (invariant this \<and> r this \<noteq> None \<and> g this \<noteq> None \<and> b this \<noteq> None)"

text \<open>\<open>(other.channel - this.channel) * percent + this.channel\<close>\<close>

definition interpolate :: "jsnum option \<Rightarrow> jsnum option \<Rightarrow> jsnum \<Rightarrow> jsnum" where
  "interpolate other_channel this_channel percent =
     js_add (js_mul (js_sub (ToNumber other_channel) (ToNumber this_channel)) percent)
            (ToNumber this_channel)"

text \<open>
  The relative luminance in the words of the specification: each channel is divided by 255
  and made linear, as \<open>v / 12.92\<close> when \<open>v \<le> 0.03928\<close> and as \<open>((v + 0.055) / 1.055) ^ 2.4\<close>
  otherwise, and the three are summed with the weights 0.2126, 0.7152 and 0.0722. Every
  constant and every operation is rounded to binary64; \<open>pw\<close> is the power of a base to an
  exponent, and its exponent here is the constant 2.4.
\<close>

definition srgb_linear :: "(real \<Rightarrow> real \<Rightarrow> real) \<Rightarrow> real \<Rightarrow> real" where
  "srgb_linear pw c =
     (let v = fl (c / 255)
      in if v \<le> fl (3928 / 100000) then fl (v / fl (1292 / 100))
         else fl (pw (fl (fl (v + fl (55 / 1000)) / fl (1055 / 1000))) (fl (24 / 10))))"

definition relative_luminance :: "(real \<Rightarrow> real \<Rightarrow> real) \<Rightarrow> real \<Rightarrow> real \<Rightarrow> real \<Rightarrow> real" where
  "relative_luminance pw cr cg cb =
     fl (fl (fl (srgb_linear pw cr * fl (2126 / 10000)) + fl (srgb_linear pw cg * fl (7152 / 10000)))
         + fl (srgb_linear pw cb * fl (722 / 10000)))"

text \<open>
  What is asked of the implementation's power: for a base from \<open>1/16\<close> to 1 and an exponent
  from 0 to 4 (the bases and the exponent of the luminance lie there), a value that is at
  most 1 and within one part in \<open>2^52\<close> of the exact power (about one unit in the last place
  of a binary64 number), and 1 for the base 1.
\<close>

definition pow_accurate :: "(real \<Rightarrow> real \<Rightarrow> real) \<Rightarrow> bool" where
  "pow_accurate pw =
     (\<forall>x y. 1 / 16 \<le> x \<and> x \<le> 1 \<and> 0 \<le> y \<and> y \<le> 4 \<longrightarrow>
            pw x y \<le> 1 \<and> \<bar>pw x y - x powr y\<bar> \<le> x powr y / 2 ^ 52 \<and> (x = 1 \<longrightarrow> pw x y = 1))"

text \<open>The exact power: with it \<open>Math.pow\<close> is the correctly rounded power.\<close>

definition exact_power :: "real \<Rightarrow> real \<Rightarrow> real" where
  "exact_power x y = x powr y"

text \<open>The contrast ratio in the words of the specification: \<open>(L1 + 0.05) / (L2 + 0.05)\<close>,
  inverted when it is less than 1; every constant and operation rounded to binary64.\<close>

definition contrast_ratio :: "real \<Rightarrow> real \<Rightarrow> real" where
  "contrast_ratio L1 L2 =
     (let c = fl (fl (L1 + fl (5 / 100)) / fl (L2 + fl (5 / 100)))
      in if c < 1 then fl (1 / c) else c)"

text \<open>The number in a channel that is set, and the luminance of a colour by the formula of
  the specification.\<close>

definition channel :: "jsnum option \<Rightarrow> real" where
  "channel v = (case v of Some (Fin x) \<Rightarrow> x | _ \<Rightarrow> 0)"

definition luminance_of :: "(real \<Rightarrow> real \<Rightarrow> real) \<Rightarrow> color \<Rightarrow> real" where
  "luminance_of pw this = relative_luminance pw (channel (r this)) (channel (g this)) (channel (b this))"

section \<open>Integer logarithms\<close>


lemma digits_len_floorlog:
  "0 \<le> a \<Longrightarrow> 1 < bs \<Longrightarrow> digits_len bs a = floorlog (nat bs) (nat a)"
proof (induction bs a rule: digits_len.induct)
  case (1 bs a)
  show ?case
  proof (cases "0 < a")
    case True
    then have "digits_len bs a = Suc (digits_len bs (a div bs))"
      using "1.prems" by (subst digits_len.simps) simp
    also have "digits_len bs (a div bs) = floorlog (nat bs) (nat (a div bs))"
      using "1.IH" True "1.prems" by (simp add: pos_imp_zdiv_nonneg_iff)
    also have "nat (a div bs) = nat a div nat bs"
      using True "1.prems" by (simp add: nat_div_distrib)
    finally have "digits_len bs a = Suc (floorlog (nat bs) (nat a div nat bs))" .
    moreover have "floorlog (nat bs) (nat a) = floorlog (nat bs) (nat a div nat bs) + 1"
      using True "1.prems" by (subst compute_floorlog) simp
    ultimately show ?thesis by simp
  next
    case False
    then show ?thesis using "1.prems" by (subst digits_len.simps) (simp add: floorlog_eq_zero_iff)
  qed
qed

lemma digits_len_bounds:
  assumes "0 < a" "1 < bs"
  shows "of_int bs ^ (digits_len bs a - 1) \<le> (of_int a :: real)"
    and "(of_int a :: real) < of_int bs ^ digits_len bs a"
    and "0 < digits_len bs a"
proof -
  define w where "w = digits_len bs a"
  have w: "w = floorlog (nat bs) (nat a)" using assms by (simp add: w_def digits_len_floorlog)
  have fb: "nat bs ^ (w - 1) \<le> nat a" "nat a < nat bs ^ w"
    using floorlog_bounds[of "nat a" "nat bs"] assms by (auto simp: w)
  have "real (nat bs ^ (w - 1)) \<le> real (nat a)" using fb(1) by (simp only: of_nat_le_iff)
  then show "of_int bs ^ (digits_len bs a - 1) \<le> (of_int a :: real)"
    using assms by (simp add: w_def)
  have "real (nat a) < real (nat bs ^ w)" using fb(2) by (simp only: of_nat_less_iff)
  then show "(of_int a :: real) < of_int bs ^ digits_len bs a"
    using assms by (simp add: w_def)
  show "0 < digits_len bs a" using assms by (subst digits_len.simps) simp
qed

lemma powb_pos: "0 < bs \<Longrightarrow> 0 < powb bs e"
  by (simp add: powb_def)

lemma powb_add: "0 < bs \<Longrightarrow> powb bs (e + d) = powb bs e * powb bs d"
proof -
  assume "0 < bs"
  then have "powb bs e = of_int bs powi e" for e
    by (simp add: powb_def power_int_def field_simps)
  then show ?thesis using \<open>0 < bs\<close> by (simp add: power_int_add)
qed

lemma powb_mono: "1 < bs \<Longrightarrow> e \<le> d \<Longrightarrow> powb bs e \<le> powb bs d"
proof -
  assume a: "1 < bs" "e \<le> d"
  have "powb bs e = of_int bs powi e" for e
    using a by (simp add: powb_def power_int_def field_simps)
  then show ?thesis using a by (simp add: power_int_increasing)
qed

lemma ilog_bounds:
  assumes "0 < x" "1 < bs"
  shows "powb bs (ilog bs x) \<le> x \<and> x < powb bs (ilog bs x + 1)"
proof (cases "1 \<le> x")
  case True
  define n where "n = \<lfloor>x\<rfloor>"
  have n: "0 < n" "of_int n \<le> x" "x < of_int n + 1" using True by (auto simp: n_def)
  define w where "w = digits_len bs n"
  note fb = digits_len_bounds[OF n(1) assms(2), folded w_def]
  have il: "ilog bs x = int w - 1" using True by (simp add: ilog_def n_def w_def)
  have "powb bs (ilog bs x) = of_int bs ^ (w - 1)"
    using fb(3) by (simp add: il powb_def nat_diff_distrib')
  with fb(1) n(2) have lo: "powb bs (ilog bs x) \<le> x" by linarith
  have "of_int n < (of_int (bs ^ w) :: real)" using fb(2) by simp
  then have "n < bs ^ w" by (simp only: of_int_less_iff)
  then have "n + 1 \<le> bs ^ w" by simp
  then have "(of_int (n + 1) :: real) \<le> of_int (bs ^ w)" by (simp only: of_int_le_iff)
  then have "of_int n + 1 \<le> (of_int bs :: real) ^ w" by simp
  moreover have "powb bs (ilog bs x + 1) = of_int bs ^ w" by (simp add: il powb_def)
  ultimately have hi: "x < powb bs (ilog bs x + 1)" using n(3) by linarith
  from lo hi show ?thesis ..
next
  case False
  define y where "y = 1 / x"
  have y: "1 < y" "0 < y" using False assms by (auto simp: y_def)
  define n where "n = \<lceil>y\<rceil> - 1"
  have "2 \<le> \<lceil>y\<rceil>" using y by linarith
  then have n: "0 < n" "of_int n < y" "y \<le> of_int n + 1" by (auto simp: n_def) linarith+
  define w where "w = digits_len bs n"
  note fb = digits_len_bounds[OF n(1) assms(2), folded w_def]
  have il: "ilog bs x = - int w" using False by (simp add: ilog_def n_def w_def y_def)
  have bpos: "0 < (of_int bs :: real)" using assms by simp
  have "of_int n < (of_int (bs ^ w) :: real)" using fb(2) by simp
  then have "n < bs ^ w" by (simp only: of_int_less_iff)
  then have "n + 1 \<le> bs ^ w" by simp
  then have "(of_int (n + 1) :: real) \<le> of_int (bs ^ w)" by (simp only: of_int_le_iff)
  then have "of_int n + 1 \<le> (of_int bs :: real) ^ w" by simp
  then have "y \<le> of_int bs ^ w" using n(3) by linarith
  then have "1 / of_int bs ^ w \<le> x" using assms bpos unfolding y_def
    by (simp add: field_simps)
  then have lo: "powb bs (ilog bs x) \<le> x" using fb(3) by (simp add: il powb_def)
  have "of_int bs ^ (w - 1) < y" using n fb(1) by linarith
  then have "x < 1 / of_int bs ^ (w - 1)" using assms bpos unfolding y_def
    by (simp add: field_simps)
  moreover have "powb bs (ilog bs x + 1) = 1 / of_int bs ^ (w - 1)"
    using fb(3) by (cases "w = 1") (auto simp: il powb_def nat_diff_distrib')
  ultimately have hi: "x < powb bs (ilog bs x + 1)" by simp
  from lo hi show ?thesis ..
qed

lemma ilog_unique:
  assumes "1 < bs" "powb bs k \<le> x" "x < powb bs (k + 1)"
  shows "ilog bs x = k"
proof -
  have x: "0 < x" using assms powb_pos[of bs k] by simp
  note b = ilog_bounds[OF x assms(1)]
  have "\<not> ilog bs x + 1 \<le> k"
    using powb_mono[OF assms(1), of "ilog bs x + 1" k] b assms by linarith
  moreover have "\<not> k + 1 \<le> ilog bs x"
    using powb_mono[OF assms(1), of "k + 1" "ilog bs x"] b assms by linarith
  ultimately show ?thesis by linarith
qed

lemma ilog_mono:
  assumes "1 < bs" "0 < x" "x \<le> y"
  shows "ilog bs x \<le> ilog bs y"
proof (rule ccontr)
  assume "\<not> ilog bs x \<le> ilog bs y"
  then have "ilog bs y + 1 \<le> ilog bs x" by simp
  from powb_mono[OF assms(1) this] ilog_bounds[OF assms(2,1)] ilog_bounds[of y bs] assms
  show False by simp
qed


section \<open>Rounding\<close>


lemma rne_of_int: "rne (of_int z) = z"
  by (simp add: rne_def)

lemma rne_floor_le: "\<lfloor>x\<rfloor> \<le> rne x"
  by (simp add: rne_def Let_def)

lemma rne_le_ceiling: "rne x \<le> \<lceil>x\<rceil>"
proof (cases "x = of_int \<lfloor>x\<rfloor>")
  case True
  then have "rne x = \<lfloor>x\<rfloor>" by (metis rne_of_int)
  then show ?thesis by (simp add: floor_le_ceiling)
next
  case False
  then have "\<lceil>x\<rceil> = \<lfloor>x\<rfloor> + 1" by (simp add: ceiling_altdef)
  then show ?thesis by (simp add: rne_def Let_def)
qed

lemma rne_ge: "of_int a \<le> x \<Longrightarrow> a \<le> rne x"
  using rne_floor_le[of x] by (simp add: le_floor_iff[symmetric])

lemma rne_le: "x \<le> of_int a \<Longrightarrow> rne x \<le> a"
  using rne_le_ceiling[of x] by (simp add: ceiling_le_iff[symmetric])

lemma rne_mono: assumes "x \<le> y" shows "rne x \<le> rne y"
proof (cases "\<lfloor>x\<rfloor> = \<lfloor>y\<rfloor>")
  case True
  have "x - of_int \<lfloor>x\<rfloor> \<le> y - of_int \<lfloor>y\<rfloor>" using assms True by simp
  then show ?thesis using True by (auto simp: rne_def Let_def)
next
  case False
  then have "\<lfloor>x\<rfloor> + 1 \<le> \<lfloor>y\<rfloor>" using floor_mono[OF assms] by simp
  moreover have "rne x \<le> \<lfloor>x\<rfloor> + 1" by (simp add: rne_def Let_def)
  ultimately show ?thesis using rne_floor_le[of y] by linarith
qed

lemma fl_alt: "x \<noteq> 0 \<Longrightarrow> fl x = of_int (rne (x / powb 2 (fexp x))) * powb 2 (fexp x)"
  by (simp add: fl_def fexp_def Let_def)

lemma fl_0: "fl 0 = 0"
  by (simp add: fl_def)

lemma fl_nonneg: "0 \<le> x \<Longrightarrow> 0 \<le> fl x"
proof (cases "x = 0")
  case True then show ?thesis by (simp add: fl_0)
next
  case False
  assume "0 \<le> x"
  then have "0 \<le> x / powb 2 (fexp x)" using powb_pos[of 2 "fexp x"] by simp
  then have "0 \<le> rne (x / powb 2 (fexp x))" using rne_ge[of 0] by simp
  then show ?thesis using powb_pos[of 2 "fexp x"] False by (simp add: fl_alt)
qed

lemma fexp_mono: "0 < x \<Longrightarrow> x \<le> y \<Longrightarrow> fexp x \<le> fexp y"
  using ilog_mono[of 2 x y] by (simp add: fexp_def)

lemma scaled_upper: assumes "0 < x" shows "x / powb 2 (fexp x) < 2 ^ 53"
proof -
  have "x < powb 2 (ilog 2 x + 1)" using ilog_bounds[OF assms, of 2] by simp
  also have "\<dots> \<le> powb 2 (fexp x + 53)" using assms by (intro powb_mono) (auto simp: fexp_def)
  also have "\<dots> = powb 2 (fexp x) * 2 ^ 53" by (simp add: powb_add) (simp add: powb_def)
  finally show ?thesis using powb_pos[of 2 "fexp x"] by (simp add: field_simps)
qed

lemma scaled_lower: assumes "0 < x" "- 1022 \<le> ilog 2 x" shows "2 ^ 52 \<le> x / powb 2 (fexp x)"
proof -
  have e: "fexp x + 52 = ilog 2 x" using assms by (simp add: fexp_def)
  have "powb 2 (fexp x) * 2 ^ 52 = powb 2 (fexp x + 52)" by (simp add: powb_add) (simp add: powb_def)
  also have "\<dots> \<le> x" using ilog_bounds[OF assms(1), of 2] by (simp add: e)
  finally show ?thesis using powb_pos[of 2 "fexp x"] by (simp add: field_simps)
qed

lemma fl_mono_pos: assumes "0 < x" "x \<le> y" shows "fl x \<le> fl y"
proof -
  have y: "0 < y" using assms by simp
  have nz: "x \<noteq> 0" "y \<noteq> 0" using assms by auto
  have le: "fexp x \<le> fexp y" by (rule fexp_mono[OF assms])
  show ?thesis
  proof (cases "fexp x = fexp y")
    case True
    have "x / powb 2 (fexp y) \<le> y / powb 2 (fexp y)"
      using assms powb_pos[of 2 "fexp y"] by (simp add: divide_right_mono)
    then have "rne (x / powb 2 (fexp y)) \<le> rne (y / powb 2 (fexp y))" by (rule rne_mono)
    then show ?thesis using powb_pos[of 2 "fexp y"] nz by (simp add: fl_alt True)
  next
    case False
    then have lt: "fexp x + 1 \<le> fexp y" using le by simp
    have "rne (x / powb 2 (fexp x)) \<le> 2 ^ 53"
      using scaled_upper[OF assms(1)] rne_le[of "x / powb 2 (fexp x)" "2 ^ 53"] by simp
    then have "of_int (rne (x / powb 2 (fexp x))) \<le> (2 ^ 53 :: real)"
      by (metis of_int_le_iff of_int_numeral of_int_power)
    then have "fl x \<le> 2 ^ 53 * powb 2 (fexp x)"
      using powb_pos[of 2 "fexp x"] nz by (simp add: fl_alt)
    also have "\<dots> = 2 ^ 52 * powb 2 (fexp x + 1)" by (simp add: powb_add) (simp add: powb_def)
    also have "\<dots> \<le> 2 ^ 52 * powb 2 (fexp y)" using powb_mono[OF _ lt, of 2] by simp
    finally have up: "fl x \<le> 2 ^ 52 * powb 2 (fexp y)" .
    have "- 1022 \<le> ilog 2 y"
    proof (rule ccontr)
      assume "\<not> - 1022 \<le> ilog 2 y"
      then have "fexp y = - 1074" using y by (simp add: fexp_def)
      moreover have "- 1074 \<le> fexp x" by (simp add: fexp_def)
      ultimately show False using lt by simp
    qed
    then have "2 ^ 52 \<le> rne (y / powb 2 (fexp y))"
      using scaled_lower[OF y] rne_ge[of "2 ^ 52" "y / powb 2 (fexp y)"] by simp
    then have "(2 ^ 52 :: real) \<le> of_int (rne (y / powb 2 (fexp y)))"
      by (metis of_int_le_iff of_int_numeral of_int_power)
    then have "2 ^ 52 * powb 2 (fexp y) \<le> fl y"
      using powb_pos[of 2 "fexp y"] nz by (simp add: fl_alt)
    with up show ?thesis by simp
  qed
qed

lemma fl_mono: "0 \<le> x \<Longrightarrow> x \<le> y \<Longrightarrow> fl x \<le> fl y"
  using fl_mono_pos[of x y] fl_nonneg[of y] by (cases "x = 0") (simp_all add: fl_0)

lemma fl_of_int: assumes "\<bar>z\<bar> \<le> 2 ^ 53" shows "fl (of_int z) = of_int z"
proof (cases "z = 0")
  case True then show ?thesis by (simp add: fl_0)
next
  case False
  define x :: real where "x = of_int z"
  have x: "x \<noteq> 0" "0 < \<bar>x\<bar>" "\<bar>x\<bar> \<le> 2 ^ 53" using False assms
    by (simp_all add: x_def)
  have "ilog 2 \<bar>x\<bar> \<le> 53"
  proof (rule ccontr)
    assume "\<not> ilog 2 \<bar>x\<bar> \<le> 53"
    then have "54 \<le> ilog 2 \<bar>x\<bar>" by simp
    from powb_mono[OF _ this, of 2] ilog_bounds[OF x(2), of 2] have "powb 2 54 \<le> \<bar>x\<bar>" by simp
    then show False using x(3) by (simp add: powb_def)
  qed
  then have e: "fexp x \<le> 1" "- 1074 \<le> fexp x" by (simp_all add: fexp_def)
  show ?thesis
  proof (cases "0 \<le> fexp x")
    case True
    show ?thesis
    proof (cases "fexp x = 0")
      case True
      then show ?thesis using x(1) by (simp add: fl_alt powb_def x_def[symmetric]) (simp add: x_def rne_of_int)
    next
      case False
      then have e1: "fexp x = 1" using True e by simp
      then have "ilog 2 \<bar>x\<bar> = 53" by (simp add: fexp_def split: if_splits)
      then have "2 ^ 53 \<le> \<bar>x\<bar>" using ilog_bounds[OF x(2), of 2] by (simp add: powb_def)
      then have "\<bar>x\<bar> = 2 ^ 53" using x(3) by simp
      then have "x = 2 ^ 53 \<or> x = - (2 ^ 53)" by linarith
      then have "x / 2 = of_int (2 ^ 52) \<or> x / 2 = of_int (- (2 ^ 52))" by auto
      then have "of_int (rne (x / 2)) = x / 2" by (metis rne_of_int)
      then show ?thesis using x(1) by (simp add: fl_alt e1 powb_def x_def[symmetric])
    qed
  next
    case False
    then have p: "powb 2 (fexp x) = 1 / 2 ^ nat (- fexp x)" by (simp add: powb_def)
    define m where "m = nat (- fexp x)"
    have "x / powb 2 (fexp x) = of_int (z * 2 ^ m)" unfolding p m_def[symmetric] by (simp add: x_def)
    then have "rne (x / powb 2 (fexp x)) = z * 2 ^ m" by (simp only: rne_of_int)
    then have "fl x = of_int (z * 2 ^ m) * (1 / 2 ^ m)"
      using x(1) unfolding p m_def[symmetric] by (simp add: fl_alt p m_def[symmetric])
    then show ?thesis by (simp add: x_def)
  qed
qed

lemma fl_numeral: "fl 1 = 1" "fl 255 = 255"
  using fl_of_int[of 1] fl_of_int[of 255] by simp_all

lemma js_round_Fin: assumes "0 \<le> x" "x \<le> 2 ^ 53" shows "js_round x = Fin (fl x)"
proof -
  have "fl x \<le> fl (2 ^ 53)" using assms by (rule fl_mono)
  also have "fl (2 ^ 53) = 2 ^ 53" using fl_of_int[of "2 ^ 53"] by simp
  finally have up: "fl x \<le> 2 ^ 53" .
  have "ilog 2 \<bar>fl x\<bar> < 1024" if "fl x \<noteq> 0"
  proof (rule ccontr)
    assume "\<not> ilog 2 \<bar>fl x\<bar> < 1024"
    then have "54 \<le> ilog 2 \<bar>fl x\<bar>" by simp
    moreover have "0 < \<bar>fl x\<bar>" using that by simp
    ultimately have "powb 2 54 \<le> \<bar>fl x\<bar>"
      using powb_mono[of 2 54 "ilog 2 \<bar>fl x\<bar>"] ilog_bounds[of "\<bar>fl x\<bar>" 2] by simp
    then show False using up fl_nonneg[OF assms(1)] by (simp add: powb_def)
  qed
  then show ?thesis by (auto simp: js_round_def Let_def)
qed


section \<open>The invariant\<close>

lemma fl_Ints: assumes "x \<in> \<int>" shows "fl x \<in> \<int>"
proof (cases "x = 0")
  case True then show ?thesis by (simp add: fl_def)
next
  case False
  define e where "e = max (ilog 2 \<bar>x\<bar>) (- 1022) - 52"
  have fl: "fl x = of_int (rne (x / powb 2 e)) * powb 2 e"
    using False by (simp add: fl_def e_def Let_def)
  show ?thesis
  proof (cases "0 \<le> e")
    case True
    then have "powb 2 e = of_int (2 ^ nat e)" by (simp add: powb_def)
    then show ?thesis unfolding fl by (metis Ints_mult Ints_of_int)
  next
    case False
    from assms obtain z where z: "x = of_int z" by (auto elim: Ints_cases)
    have p: "powb 2 e = 1 / 2 ^ nat (- e)" using False by (simp add: powb_def)
    have "x / powb 2 e = of_int (z * 2 ^ nat (- e))" by (simp add: p z)
    then have "rne (x / powb 2 e) = z * 2 ^ nat (- e)" by (simp only: rne_of_int)
    then have "fl x = x" unfolding fl by (simp add: p z)
    with assms show ?thesis by simp
  qed
qed

lemma integral_js_round: "x \<in> \<int> \<Longrightarrow> integral (js_round x)"
  by (simp add: js_round_def integral_def Let_def fl_Ints)

lemma integral_parseInt_string: "integral (parseInt_string s R)"
  unfolding parseInt_string_def Let_def
  by (auto simp: integral_def[of NaN] intro!: integral_js_round)

lemma integral_parseInt_number: "integral (parseInt_number x)"
  by (auto simp: parseInt_number_def integral_def Let_def sgn_if split: prod.splits)

lemma integral_parseInt: "integral (parseInt v)"
  by (induction v rule: parseInt.induct) (simp_all add: integral_parseInt_string integral_parseInt_number)

lemma numberBound_channel:
  assumes "integral n"
  shows "numberBound n (Fin 0) (Fin 255) = NaN \<or> (\<exists>x. numberBound n (Fin 0) (Fin 255) = Fin x \<and> x \<in> \<int> \<and> 0 \<le> x \<and> x \<le> 255)"
  using assms by (cases n) (auto simp: numberBound_def Math_max_def Math_min_def integral_def)

lemma numberBound_unit:
  "numberBound n (Fin 0) (Fin 1) = NaN \<or> (\<exists>x. numberBound n (Fin 0) (Fin 1) = Fin x \<and> 0 \<le> x \<and> x \<le> 1)"
  by (cases n) (auto simp: numberBound_def Math_max_def Math_min_def)

lemma channel_ok_bound: "integral n \<Longrightarrow> channel_ok (let v = numberBound n (Fin 0) (Fin 255) in if isNaN v then None else Some v)"
  using numberBound_channel[of n] by (auto simp: channel_ok_def Let_def)

lemma opacity_ok_bound: "opacity_ok (let v = numberBound n (Fin 0) (Fin 1) in if isNaN v then None else Some v)"
  using numberBound_unit[of n] by (auto simp: opacity_ok_def Let_def)

lemma invariant_setRed: "invariant this \<Longrightarrow> invariant (setRed v this)"
  using channel_ok_bound[OF integral_parseInt[of v]] by (simp add: invariant_def setRed_def Let_def)
lemma invariant_setGreen: "invariant this \<Longrightarrow> invariant (setGreen v this)"
  using channel_ok_bound[OF integral_parseInt[of v]] by (simp add: invariant_def setGreen_def Let_def)
lemma invariant_setBlue: "invariant this \<Longrightarrow> invariant (setBlue v this)"
  using channel_ok_bound[OF integral_parseInt[of v]] by (simp add: invariant_def setBlue_def Let_def)
lemma invariant_setOpacity: "invariant this \<Longrightarrow> invariant (setOpacity v this)"
  using opacity_ok_bound[of "parseFloat v"] by (simp add: invariant_def setOpacity_def Let_def)

lemmas invariant_setters = invariant_setRed invariant_setGreen invariant_setBlue invariant_setOpacity

lemma invariant_fillHex: "invariant this \<Longrightarrow> invariant (fillHex s this)"
  by (simp add: fillHex_def Let_def invariant_setters split: option.splits)
lemma invariant_fillRgb: "invariant this \<Longrightarrow> invariant (fillRgb s this)"
  by (simp add: fillRgb_def invariant_setters split: option.splits)
lemma invariant_fillRgba: "invariant this \<Longrightarrow> invariant (fillRgba s this)"
  by (simp add: fillRgba_def invariant_setters split: option.splits)
lemma invariant_fill: "invariant this \<Longrightarrow> invariant (fill s this)"
  by (simp add: fill_def invariant_fillHex invariant_fillRgb invariant_fillRgba)
lemma invariant_darken: "invariant this \<Longrightarrow> invariant (darken p this)"
  by (simp add: darken_def Let_def invariant_setters)
lemma invariant_lighten: "invariant this \<Longrightarrow> invariant (lighten p this)"
  by (simp add: lighten_def Let_def invariant_setters)
lemma invariant_blendWith: "invariant this \<Longrightarrow> invariant (blendWith c p this)"
  by (simp add: blendWith_def Let_def invariant_setters)

lemma bound_300: "numberBound (parseInt (JNum (Fin 300))) (Fin 0) (Fin 255) = Fin 255"
  by code_simp
lemma bound_neg5: "numberBound (parseInt (JNum (Fin (- 5)))) (Fin 0) (Fin 255) = Fin 0"
  by code_simp




section \<open>C1: the state invariant\<close>

text \<open>
  C1. The constructor establishes the state invariant and every operation that changes the
  object preserves it: the four setters, the four parsers, \<open>darken\<close>, \<open>lighten\<close> and
  \<open>blendWith\<close> (the other operations only read the object). Each of red, green and blue
  is \<open>null\<close> or an integer from 0 to 255, and the opacity is \<open>null\<close> or a number from 0
  to 1. In particular \<open>setRed(300).toRgbArray()[0]\<close> is 255 and \<open>setRed(-5).toRgbArray()[0]\<close>
  is 0.
\<close>

theorem invariant_preserved:
  assumes "invariant this"
  shows "invariant SiteColor
       \<and> invariant (setRed v this) \<and> invariant (setGreen v this) \<and> invariant (setBlue v this)
       \<and> invariant (setOpacity v this)
       \<and> invariant (fillHex s this) \<and> invariant (fillRgb s this) \<and> invariant (fillRgba s this)
       \<and> invariant (fill s this)
       \<and> invariant (darken v this) \<and> invariant (lighten v this)
       \<and> invariant (blendWith color v this)
       \<and> toRgbArray (setRed (JNum (Fin 300)) this) ! 0 = Some (Fin 255)
       \<and> toRgbArray (setRed (JNum (Fin (- 5))) this) ! 0 = Some (Fin 0)"
proof -
  have "invariant SiteColor"
    by (simp add: invariant_def SiteColor_def channel_ok_def opacity_ok_def)
  moreover have "toRgbArray (setRed (JNum (Fin 300)) this) ! 0 = Some (Fin 255)"
    by (simp add: toRgbArray_def setRed_def bound_300 del: parseInt.simps)
  moreover have "toRgbArray (setRed (JNum (Fin (- 5))) this) ! 0 = Some (Fin 0)"
    by (simp add: toRgbArray_def setRed_def bound_neg5 del: parseInt.simps)
  ultimately show ?thesis
    using assms
    by (simp add: invariant_setters invariant_fillHex invariant_fillRgb invariant_fillRgba
        invariant_fill invariant_darken invariant_lighten invariant_blendWith)
qed

theorem invariant_preserved_witness:
  "invariant SiteColor
   \<and> invariant (setOpacity (JStr ''0.6'') SiteColor)
   \<and> invariant (fill ''#ff00aa'' SiteColor)
   \<and> invariant (darken (JNum (Fin (1 / 2))) SiteColor)
   \<and> toRgbArray (setRed (JNum (Fin 300)) SiteColor) ! 0 = Some (Fin 255)
   \<and> toRgbArray (setRed (JNum (Fin (- 5))) SiteColor) ! 0 = Some (Fin 0)"
proof -
  have "invariant SiteColor"
    by (simp add: invariant_def SiteColor_def channel_ok_def opacity_ok_def)
  from invariant_preserved[OF this, of "JStr ''0.6''" "''#ff00aa''"]
       invariant_preserved[OF this, of "JNum (Fin (1 / 2))"]
  show ?thesis by simp
qed

lemma upto_16: "[0..15] = [0,1,2,3,4,5,6,7,8,9,10,11,12,13,14,15::int]" "[10..15] = [10,11,12,13,14,15::int]"
  by (simp_all add: upto_rec1)

lemma hexchar_table:
  "\<forall>c\<in>set hexchars. digit_val c = Some (hexval c) \<and> 0 \<le> hexval c \<and> hexval c < 16 \<and> \<not> is_ws c
     \<and> c \<noteq> CHR ''+'' \<and> c \<noteq> CHR ''-'' \<and> c \<noteq> CHR ''x'' \<and> c \<noteq> CHR ''X'' \<and> c \<noteq> CHR ''#''"
  by code_simp

lemma hexchar_facts:
  assumes "c \<in> set hexchars"
  shows "digit_val c = Some (hexval c)" "0 \<le> hexval c" "hexval c < 16" "\<not> is_ws c"
    "c \<noteq> CHR ''+''" "c \<noteq> CHR ''-''" "c \<noteq> CHR ''x''" "c \<noteq> CHR ''X''" "c \<noteq> CHR ''#''"
  using assms hexchar_table by blast+

lemma char_by_code: "(of_char c :: int) = of_char d \<Longrightarrow> c = d"
  by simp

lemma is_hex_hexchars: "is_hex c \<longleftrightarrow> c \<in> set hexchars"
proof
  assume h: "is_hex c"
  define n where "n = (of_char c :: int)"
  from h have "(48 \<le> n \<and> n \<le> 57) \<or> (97 \<le> n \<and> n \<le> 102) \<or> (65 \<le> n \<and> n \<le> 70)"
    by (auto simp: is_hex_def is_digit_in_def digit_val_def Let_def n_def[symmetric] split: if_splits)
  then have "n \<in> {48,49,50,51,52,53,54,55,56,57,97,98,99,100,101,102,65,66,67,68,69,70}"
    by auto presburger+
  then have "n \<in> of_char ` set hexchars"
    by (simp add: hexchars_def)
  then obtain d where "d \<in> set hexchars" "n = of_char d" by blast
  then show "c \<in> set hexchars" using char_by_code[of c d] by (simp add: n_def)
next
  assume "c \<in> set hexchars"
  from hexchar_facts[OF this] show "is_hex c" by (simp add: is_hex_def is_digit_in_def)
qed

lemma numberBound_clamp_to:
  "lo \<le> hi \<Longrightarrow>
   (let v = numberBound n (Fin lo) (Fin hi) in if isNaN v then None else Some v) = clamp_to lo hi n"
  by (cases n) (auto simp: numberBound_def Math_max_def Math_min_def clamp_to_def)

lemma numberBound_Fin:
  "numberBound (Fin x) (Fin lo) (Fin hi) = Fin (min (max x lo) hi)"
  by (auto simp: numberBound_def Math_max_def Math_min_def)

lemma fst_sci: "fst (sci x) = ilog 10 x \<or> fst (sci x) = ilog 10 x + 1"
  by (simp add: sci_def Let_def)

lemma parseInt_number_trunc:
  assumes "1 / 10 ^ 6 \<le> x" "x < 10 ^ 20"
  shows "parseInt_number x = Fin (of_int \<lfloor>x\<rfloor>)"
proof -
  have x: "0 < x" using assms(1) by (rule less_le_trans[rotated]) simp
  note b = ilog_bounds[OF x, of 10, simplified]
  have lo: "- 6 \<le> ilog 10 x"
  proof (rule ccontr)
    assume "\<not> - 6 \<le> ilog 10 x"
    then have "ilog 10 x + 1 \<le> - 6" by simp
    from powb_mono[OF _ this, of 10] have "powb 10 (ilog 10 x + 1) \<le> 1 / 10 ^ 6"
      by (simp add: powb_def)
    with b assms show False by simp
  qed
  have hi: "ilog 10 x \<le> 19"
  proof (rule ccontr)
    assume "\<not> ilog 10 x \<le> 19"
    then have "20 \<le> ilog 10 x" by simp
    from powb_mono[OF _ this, of 10] have "10 ^ 20 \<le> powb 10 (ilog 10 x)"
      by (simp add: powb_def)
    with b assms show False by simp
  qed
  obtain k d where s: "sci x = (k, d)" by (cases "sci x")
  with fst_sci[of x] lo hi have "- 7 < k \<and> k < 21" by auto
  then show ?thesis using x s by (simp add: parseInt_number_def)
qed

lemma parseInt_number_int:
  assumes "0 \<le> n" "n < 10 ^ 20"
  shows "parseInt_number (of_int n) = Fin (of_int n)"
proof (cases "n = 0")
  case True then show ?thesis by (simp add: parseInt_number_def)
next
  case False
  then have "1 \<le> n" using assms by simp
  then have "(1::real) \<le> of_int n" by simp
  then have "1 / 10 ^ 6 \<le> (of_int n :: real)" by (rule order_trans[rotated]) simp
  moreover have "(of_int n :: real) < 10 ^ 20"
    using assms(2) by (metis of_int_less_iff of_int_numeral of_int_power)
  ultimately show ?thesis using parseInt_number_trunc[of "of_int n"] by simp
qed

lemma js_round_int:
  assumes "0 \<le> n" "n \<le> 2 ^ 53"
  shows "js_round (of_int n) = Fin (of_int n)"
proof -
  have "(of_int n :: real) \<le> 2 ^ 53"
    using assms(2) by (metis of_int_le_iff of_int_numeral of_int_power)
  then have "js_round (of_int n) = Fin (fl (of_int n))" using assms(1) by (simp add: js_round_Fin)
  then show ?thesis using fl_of_int[of n] assms by simp
qed

lemma setRed_byte:
  assumes "0 \<le> n" "n \<le> 255"
  shows "setRed (JNum (Fin (of_int n))) this = this\<lparr>r := Some (Fin (of_int n))\<rparr>"
  using assms parseInt_number_int[of n] by (simp add: setRed_def numberBound_Fin)

lemma setGreen_byte:
  assumes "0 \<le> n" "n \<le> 255"
  shows "setGreen (JNum (Fin (of_int n))) this = this\<lparr>g := Some (Fin (of_int n))\<rparr>"
  using assms parseInt_number_int[of n] by (simp add: setGreen_def numberBound_Fin)

lemma setBlue_byte:
  assumes "0 \<le> n" "n \<le> 255"
  shows "setBlue (JNum (Fin (of_int n))) this = this\<lparr>b := Some (Fin (of_int n))\<rparr>"
  using assms parseInt_number_int[of n] by (simp add: setBlue_def numberBound_Fin)

lemma setOpacity_one: "setOpacity (JNum (Fin 1)) this = this\<lparr>opacity := Some (Fin 1)\<rparr>"
  by (simp add: setOpacity_def numberBound_Fin)

lemma parseInt_string_hex2:
  assumes "x \<in> set hexchars" "y \<in> set hexchars"
  shows "parseInt_string [x, y] 16 = Fin (of_int (16 * hexval x + hexval y))"
proof -
  note fx = hexchar_facts[OF assms(1)] and fy = hexchar_facts[OF assms(2)]
  have d: "is_digit_in 16 x" "is_digit_in 16 y" using fx fy by (simp_all add: is_digit_in_def)
  have v: "digits_value 16 [x, y] = 16 * hexval x + hexval y"
    using fx fy by (simp add: digits_value_def)
  have "0 \<le> 16 * hexval x + hexval y" "16 * hexval x + hexval y \<le> 2 ^ 53" using fx fy by simp_all
  from js_round_int[OF this] show ?thesis
    using fx fy d by (simp add: parseInt_string_def v)
qed

lemma hex_pair_value:
  assumes "i < length res" "j < length res" "res ! i \<in> set hexchars" "res ! j \<in> set hexchars"
  shows "hex_pair res i j = Fin (of_int (16 * hexval (res ! i) + hexval (res ! j)))"
  using assms by (simp add: hex_pair_def parseInt_string_hex2)

lemma byte_range:
  assumes "x \<in> set hexchars" "y \<in> set hexchars"
  shows "0 \<le> 16 * hexval x + hexval y" "16 * hexval x + hexval y \<le> 255"
  using hexchar_facts[OF assms(1)] hexchar_facts[OF assms(2)] by simp_all

lemma fillHex_six:
  assumes "set [a1, a2, a3, a4, a5, a6] \<subseteq> set hexchars"
  shows "fillHex [CHR ''#'', a1, a2, a3, a4, a5, a6] this =
         this\<lparr>r := Some (Fin (of_int (16 * hexval a1 + hexval a2))),
              g := Some (Fin (of_int (16 * hexval a3 + hexval a4))),
              b := Some (Fin (of_int (16 * hexval a5 + hexval a6))),
              opacity := Some (Fin 1)\<rparr>"
proof -
  have h: "HEX_REGEXP [CHR ''#'', a1, a2, a3, a4, a5, a6] = Some [a1, a2, a3, a4, a5, a6]"
    using assms by (simp add: HEX_REGEXP_def is_hex_hexchars)
  define res where "res = [a1, a2, a3, a4, a5, a6]"
  define n1 n2 n3 where "n1 = 16 * hexval a1 + hexval a2" and "n2 = 16 * hexval a3 + hexval a4"
    and "n3 = 16 * hexval a5 + hexval a6"
  have p: "hex_pair res 0 1 = Fin (of_int n1)" "hex_pair res 2 3 = Fin (of_int n2)"
      "hex_pair res 4 5 = Fin (of_int n3)"
    using assms by (simp_all only: n1_def n2_def n3_def res_def hex_pair_value) (simp_all add: hex_pair_value)
  have n: "0 \<le> n1" "n1 \<le> 255" "0 \<le> n2" "n2 \<le> 255" "0 \<le> n3" "n3 \<le> 255"
    using assms by (simp_all add: n1_def n2_def n3_def byte_range)
  have "fillHex [CHR ''#'', a1, a2, a3, a4, a5, a6] this =
        setOpacity (JNum (Fin 1)) (setBlue (JNum (hex_pair res 4 5))
          (setGreen (JNum (hex_pair res 2 3)) (setRed (JNum (hex_pair res 0 1)) this)))"
    by (simp add: fillHex_def h res_def Let_def)
  also have "\<dots> = this\<lparr>r := Some (Fin (of_int n1)), g := Some (Fin (of_int n2)),
                         b := Some (Fin (of_int n3)), opacity := Some (Fin 1)\<rparr>"
    unfolding p by (simp only: setRed_byte setGreen_byte setBlue_byte setOpacity_one n)
  finally show ?thesis by (simp only: n1_def n2_def n3_def)
qed

lemma fillHex_three:
  assumes "set [a1, a2, a3] \<subseteq> set hexchars"
  shows "fillHex [CHR ''#'', a1, a2, a3] this = fillHex [CHR ''#'', a1, a1, a2, a2, a3, a3] this"
proof -
  have h: "HEX_REGEXP [CHR ''#'', a1, a2, a3] = Some [a1, a2, a3]"
      "HEX_REGEXP [CHR ''#'', a1, a1, a2, a2, a3, a3] = Some [a1, a1, a2, a2, a3, a3]"
    using assms by (simp_all add: HEX_REGEXP_def is_hex_hexchars)
  have s: "SHORT_HEX_REGEXP [a1, a2, a3] = Some (a1, a2, a3)"
    using assms hexchar_facts(9)[of a1] by (simp add: SHORT_HEX_REGEXP_def is_hex_hexchars)
  show ?thesis by (simp add: fillHex_def h s Let_def)
qed

section \<open>C2: malformed input\<close>

lemma setters_clamp:
  "setRed v this = this\<lparr>r := clamp_to 0 255 (parseInt v)\<rparr>"
  "setGreen v this = this\<lparr>g := clamp_to 0 255 (parseInt v)\<rparr>"
  "setBlue v this = this\<lparr>b := clamp_to 0 255 (parseInt v)\<rparr>"
  "setOpacity v this = this\<lparr>opacity := clamp_to 0 1 (parseFloat v)\<rparr>"
  using numberBound_clamp_to[of 0 255 "parseInt v"] numberBound_clamp_to[of 0 1 "parseFloat v"]
  by (simp_all add: setRed_def setGreen_def setBlue_def setOpacity_def Let_def)

lemma fa1_value:
  "fill ''#fa1'' SiteColor = \<lparr>r = Some (Fin 255), g = Some (Fin 170), b = Some (Fin 17), opacity = Some (Fin 1)\<rparr>"
  by code_simp

text \<open>
  The reading of a string of 16-bit code units keeps what the patterns and the syntax of
  numbers can tell of a character: a code unit below 256 is read as itself, white space is
  read as white space and nothing else is, and a code unit is read as an ASCII character
  only when it is one.
\<close>

lemma Latin1_wide: "\<not> u < 256 \<Longrightarrow> Latin1 u = (if is_ws16 u then CHR 0xA0 else CHR 0xFF)"
  by (simp add: Latin1_def)

lemma Latin1_narrow: "u < 256 \<Longrightarrow> (of_char (Latin1 u) :: nat) = unat u"
proof -
  assume a: "u < 256"
  then have "unat u < 256" by (simp add: word_less_nat_alt)
  with a show ?thesis by (simp add: Latin1_def)
qed

lemma is_ws16_wide: "is_ws16 u \<Longrightarrow> \<not> u < 256"
  by (auto simp: is_ws16_def word_less_nat_alt word_le_nat_alt)

lemma is_ws_code: "is_ws c \<longleftrightarrow> (of_char c :: nat) \<in> {9, 10, 11, 12, 13, 32, 160}"
proof -
  have "c = d \<longleftrightarrow> (of_char c :: nat) = of_char d" for d by simp
  then show ?thesis unfolding is_ws_def by (simp del: of_char_eq_iff)
qed

lemma Latin1_ws: "is_ws (Latin1 u) \<longleftrightarrow> unat u \<in> {9, 10, 11, 12, 13, 32, 160} \<or> is_ws16 u"
proof (cases "u < 256")
  case True
  then show ?thesis using is_ws16_wide[of u] by (auto simp: is_ws_code Latin1_narrow)
next
  case False
  then have "\<not> unat u < 256" by (simp add: word_less_nat_alt)
  then have "unat u \<notin> {9, 10, 11, 12, 13, 32, 160}" by auto
  moreover have "is_ws (CHR 0xA0)" "\<not> is_ws (CHR 0xFF)" by (simp_all add: is_ws_def)
  ultimately show ?thesis using False by (simp add: Latin1_wide)
qed

lemma Latin1_ascii: "(of_char (Latin1 u) :: nat) < 128 \<longleftrightarrow> u < 128"
proof (cases "u < 256")
  case True
  then show ?thesis by (simp add: Latin1_narrow word_less_nat_alt)
next
  case False
  then have "\<not> u < 128" by (simp add: word_less_nat_alt)
  with False show ?thesis by (simp add: Latin1_wide)
qed









section \<open>C3: hexadecimal colours\<close>

lemma HEX_REGEXP_iff:
  "HEX_REGEXP s \<noteq> None \<longleftrightarrow>
   (\<exists>ds. s = CHR ''#'' # ds \<and> (length ds = 3 \<or> length ds = 6) \<and> set ds \<subseteq> set hexchars)"
  by (cases s) (auto simp: HEX_REGEXP_def list_all_iff is_hex_hexchars)

lemma fill_hex: "HEX_REGEXP s \<noteq> None \<Longrightarrow> fill s this = fillHex s this"
  by (simp add: fill_def)

lemma example_f00: "toHex (fill ''#f00'' SiteColor) = ''#ff0000''"
  by code_simp

lemma example_ff00aa: "toRgbArray (fill ''#ff00aa'' SiteColor) = [Some (Fin 255), Some (Fin 0), Some (Fin 170)]"
  by code_simp

text \<open>
  C3. The strings that \<open>fillHex\<close> accepts are \<open>#\<close> followed by three or by six hexadecimal
  digits of either case, and \<open>fill\<close> passes them to \<open>fillHex\<close>. On six digits red, green
  and blue become the values of the three pairs of digits and the opacity becomes 1; three
  digits give what the six digits with each digit doubled give. In particular
  \<open>fill('#f00').toHex()\<close> is \<open>#ff0000\<close> and \<open>fill('#ff00aa').toRgbArray()\<close> is
  \<open>[255, 0, 170]\<close>.
\<close>

theorem fillHex_sets_channels:
  "(HEX_REGEXP s \<noteq> None \<longleftrightarrow>
      (\<exists>ds. s = CHR ''#'' # ds \<and> (length ds = 3 \<or> length ds = 6) \<and> set ds \<subseteq> set hexchars))
   \<and> (HEX_REGEXP s \<noteq> None \<longrightarrow> fill s this = fillHex s this)
   \<and> (set [c1, c2, c3, c4, c5, c6] \<subseteq> set hexchars \<longrightarrow>
        fillHex [CHR ''#'', c1, c2, c3, c4, c5, c6] this =
        this\<lparr>r := Some (Fin (of_int (16 * hexval c1 + hexval c2))),
             g := Some (Fin (of_int (16 * hexval c3 + hexval c4))),
             b := Some (Fin (of_int (16 * hexval c5 + hexval c6))),
             opacity := Some (Fin 1)\<rparr>)
   \<and> (set [c1, c2, c3] \<subseteq> set hexchars \<longrightarrow>
        fillHex [CHR ''#'', c1, c2, c3] this = fillHex [CHR ''#'', c1, c1, c2, c2, c3, c3] this
        \<and> fillHex [CHR ''#'', c1, c2, c3] this =
          this\<lparr>r := Some (Fin (of_int (16 * hexval c1 + hexval c1))),
               g := Some (Fin (of_int (16 * hexval c2 + hexval c2))),
               b := Some (Fin (of_int (16 * hexval c3 + hexval c3))),
               opacity := Some (Fin 1)\<rparr>)
   \<and> toHex (fill ''#f00'' SiteColor) = ''#ff0000''
   \<and> toRgbArray (fill ''#ff00aa'' SiteColor) = [Some (Fin 255), Some (Fin 0), Some (Fin 170)]"
proof -
  have three: "fillHex [CHR ''#'', c1, c2, c3] this =
          this\<lparr>r := Some (Fin (of_int (16 * hexval c1 + hexval c1))),
               g := Some (Fin (of_int (16 * hexval c2 + hexval c2))),
               b := Some (Fin (of_int (16 * hexval c3 + hexval c3))),
               opacity := Some (Fin 1)\<rparr>" if "set [c1, c2, c3] \<subseteq> set hexchars"
    using that fillHex_three[OF that, of this] fillHex_six[of c1 c1 c2 c2 c3 c3 this]
    by (simp only: set_simps insert_subset)
  show ?thesis
    using HEX_REGEXP_iff[of s] fill_hex[of s this] fillHex_six[of c1 c2 c3 c4 c5 c6 this]
      fillHex_three[of c1 c2 c3 this] three example_f00 example_ff00aa
    by blast
qed

theorem fillHex_sets_channels_witness:
  "HEX_REGEXP ''#fa1'' \<noteq> None
   \<and> set ''ff00aa'' \<subseteq> set hexchars \<and> set ''fa1'' \<subseteq> set hexchars
   \<and> fill ''#fa1'' SiteColor = fillHex ''#fa1'' SiteColor
   \<and> fillHex ''#ff00aa'' SiteColor =
       \<lparr>r = Some (Fin 255), g = Some (Fin 0), b = Some (Fin 170), opacity = Some (Fin 1)\<rparr>
   \<and> fillHex ''#fa1'' SiteColor =
       \<lparr>r = Some (Fin 255), g = Some (Fin 170), b = Some (Fin 17), opacity = Some (Fin 1)\<rparr>"
proof -
  have h: "set ''ff00aa'' \<subseteq> set hexchars" "set ''fa1'' \<subseteq> set hexchars"
    by (simp_all add: hexchars_def)
  have v: "hexval CHR ''f'' = 15" "hexval CHR ''a'' = 10" "hexval CHR ''0'' = 0" "hexval CHR ''1'' = 1"
    by (simp_all add: hexval_def upto_16)
  have m: "HEX_REGEXP ''#fa1'' \<noteq> None"
    by code_simp
  note t1 = fillHex_sets_channels[of "''#fa1''" SiteColor "CHR ''f''" "CHR ''f''" "CHR ''0''" "CHR ''0''" "CHR ''a''" "CHR ''a''"]
  note t2 = fillHex_sets_channels[of "''#fa1''" SiteColor "CHR ''f''" "CHR ''a''" "CHR ''1''" "CHR ''0''" "CHR ''0''" "CHR ''0''"]
  have a: "fillHex ''#ff00aa'' SiteColor =
      SiteColor\<lparr>r := Some (Fin (of_int (16 * hexval CHR ''f'' + hexval CHR ''f''))),
                g := Some (Fin (of_int (16 * hexval CHR ''0'' + hexval CHR ''0''))),
                b := Some (Fin (of_int (16 * hexval CHR ''a'' + hexval CHR ''a''))),
                opacity := Some (Fin 1)\<rparr>"
    using t1 h(1) by blast
  have b: "fillHex ''#fa1'' SiteColor =
      SiteColor\<lparr>r := Some (Fin (of_int (16 * hexval CHR ''f'' + hexval CHR ''f''))),
                g := Some (Fin (of_int (16 * hexval CHR ''a'' + hexval CHR ''a''))),
                b := Some (Fin (of_int (16 * hexval CHR ''1'' + hexval CHR ''1''))),
                opacity := Some (Fin 1)\<rparr>"
    using t2 h(2) by blast
  have c: "fill ''#fa1'' SiteColor = fillHex ''#fa1'' SiteColor"
    using t2 m by blast
  show ?thesis using h m c a b by (simp add: v SiteColor_def)
qed

section \<open>C4: the hexadecimal round trip\<close>

lemma js_add_int:
  assumes "0 \<le> m + n" "m + n \<le> 2 ^ 53"
  shows "js_add (Fin (of_int m)) (Fin (of_int n)) = Fin (of_int (m + n))"
  using js_round_int[OF assms] by simp

lemma js_shl_small:
  assumes "0 \<le> n" "n \<le> 255" "k \<le> 16"
  shows "js_shl (Fin (of_int n)) k = Fin (of_int (n * 2 ^ k))"
proof -
  have "n * 2 ^ k \<le> 255 * 2 ^ k" using assms by simp
  also have "(2::int) ^ k \<le> 2 ^ 16" using assms by (intro power_increasing) auto
  then have "(255::int) * 2 ^ k \<le> 255 * 2 ^ 16" by simp
  finally have up: "n * 2 ^ k < 2 ^ 31" by simp
  have lo: "- (2 ^ 31) \<le> n * 2 ^ k" using assms by (simp add: order_trans[of _ 0])
  have "push_bit k (word_of_int n :: 32 word) = word_of_int (n * 2 ^ k)"
    by (simp add: push_bit_eq_mult)
  moreover have "sint (word_of_int (n * 2 ^ k) :: 32 word) = signed_take_bit 31 (n * 2 ^ k)"
    by (subst sint_sbintrunc') simp
  moreover have "signed_take_bit 31 (n * 2 ^ k) = n * 2 ^ k"
    using lo up by (intro signed_take_bit_int_eq_self) simp_all
  ultimately show ?thesis using assms by (simp add: js_shl_def ToInt32_def)
qed

lemma js_shl_one: "js_shl (Fin 1) 24 = Fin 16777216"
proof -
  have "push_bit 24 (word_of_int 1 :: 32 word) = word_of_int (2 ^ 24)"
    by (simp add: push_bit_eq_mult)
  moreover have "sint (word_of_int (2 ^ 24) :: 32 word) = signed_take_bit 31 (2 ^ 24)"
    by (subst sint_sbintrunc') simp
  moreover have "signed_take_bit 31 (2 ^ 24 :: int) = 2 ^ 24"
    by (intro signed_take_bit_int_eq_self) simp_all
  ultimately show ?thesis by (simp add: js_shl_def ToInt32_def)
qed

lemma hexstr_step: "16 \<le> n \<Longrightarrow> hexstr n = hexstr (n div 16) @ [hexdigit (n mod 16)]"
  by (subst hexstr.simps) simp

lemma foldl_digits_ge:
  "1 \<le> m \<Longrightarrow> \<forall>d\<in>set ds. 0 \<le> d \<Longrightarrow> 1 \<le> foldl (\<lambda>a d. 16 * a + d) (m::int) ds"
  by (induction ds rule: rev_induct) auto

lemma hexstr_digits:
  assumes "1 \<le> m" "\<forall>d\<in>set ds. 0 \<le> d \<and> d < 16"
  shows "hexstr (foldl (\<lambda>a d. 16 * a + d) m ds) = hexstr m @ map hexdigit ds"
  using assms
proof (induction ds rule: rev_induct)
  case Nil
  then show ?case by simp
next
  case (snoc d ds)
  define X where "X = foldl (\<lambda>a d. 16 * a + d) m ds"
  have X: "1 \<le> X" unfolding X_def using snoc.prems by (intro foldl_digits_ge) auto
  have d: "0 \<le> d" "d < 16" using snoc.prems by auto
  have "hexstr (16 * X + d) = hexstr ((16 * X + d) div 16) @ [hexdigit ((16 * X + d) mod 16)]"
    using X d by (intro hexstr_step) simp
  also have "(16 * X + d) div 16 = X" using d by simp
  also have "(16 * X + d) mod 16 = d" using d by simp
  finally show ?case using snoc by (simp add: X_def)
qed

lemma hexstr_one: "hexstr 1 = ''1''"
  by (subst hexstr.simps) (simp add: hexdigit_def)

lemma toHex_bytes:
  assumes "\<forall>d\<in>set [a1, a2, a3, a4, a5, a6]. 0 \<le> d \<and> d < 16"
  shows "toHex \<lparr>r = Some (Fin (of_int (16 * a1 + a2))), g = Some (Fin (of_int (16 * a3 + a4))),
                b = Some (Fin (of_int (16 * a5 + a6))), opacity = op\<rparr>
         = CHR ''#'' # map hexdigit [a1, a2, a3, a4, a5, a6]"
proof -
  define n1 n2 n3 where "n1 = 16 * a1 + a2" and "n2 = 16 * a3 + a4" and "n3 = 16 * a5 + a6"
  have n: "0 \<le> n1" "n1 \<le> 255" "0 \<le> n2" "n2 \<le> 255" "0 \<le> n3" "n3 \<le> 255"
    using assms by (simp_all add: n1_def n2_def n3_def)
  define N where "N = 16777216 + n1 * 2 ^ 16 + n2 * 2 ^ 8 + n3"
  have s1: "js_add (js_shl (Fin 1) 24) (js_shl (Fin (of_int n1)) 16) = Fin (of_int (16777216 + n1 * 2 ^ 16))"
    using n js_add_int[of 16777216 "n1 * 2 ^ 16"] by (simp add: js_shl_one js_shl_small)
  have s2: "js_add (Fin (of_int (16777216 + n1 * 2 ^ 16))) (js_shl (Fin (of_int n2)) 8)
            = Fin (of_int (16777216 + n1 * 2 ^ 16 + n2 * 2 ^ 8))"
    using n js_add_int[of "16777216 + n1 * 2 ^ 16" "n2 * 2 ^ 8"] by (simp add: js_shl_small)
  have s3: "js_add (Fin (of_int (16777216 + n1 * 2 ^ 16 + n2 * 2 ^ 8))) (Fin (of_int n3)) = Fin (of_int N)"
    using n js_add_int[of "16777216 + n1 * 2 ^ 16 + n2 * 2 ^ 8" n3] by (simp add: N_def)
  have N0: "0 \<le> N" using n by (simp add: N_def)
  have "N = foldl (\<lambda>a d. 16 * a + d) 1 [a1, a2, a3, a4, a5, a6]"
    by (simp add: N_def n1_def n2_def n3_def)
  then have "hexstr N = hexstr 1 @ map hexdigit [a1, a2, a3, a4, a5, a6]"
    using hexstr_digits[of 1 "[a1, a2, a3, a4, a5, a6]"] assms by simp
  then have h: "drop 1 (hexstr N) = map hexdigit [a1, a2, a3, a4, a5, a6]"
    by (simp add: hexstr_one)
  have "toHex \<lparr>r = Some (Fin (of_int n1)), g = Some (Fin (of_int n2)),
                b = Some (Fin (of_int n3)), opacity = op\<rparr> = ''#'' @ drop 1 (radix16 (Fin (of_int N)))"
    unfolding toHex_def by (simp only: color.simps ToNumber_def option.case s1 s2 s3)
  also have "radix16 (Fin (of_int N)) = hexstr N" using N0 by simp
  finally show ?thesis unfolding h n1_def n2_def n3_def by simp
qed

lemma hexdigit_table:
  "\<forall>d\<in>set [0..15]. hexdigit d \<in> set ''0123456789abcdef'' \<and> hexdigit d \<in> set hexchars
     \<and> hexval (hexdigit d) = d"
  by code_simp

lemma hexdigit_facts:
  assumes "0 \<le> d" "d < 16"
  shows "hexdigit d \<in> set ''0123456789abcdef''" "hexdigit d \<in> set hexchars" "hexval (hexdigit d) = d"
proof -
  have "d \<in> set [0..15]" using assms by simp
  with hexdigit_table show "hexdigit d \<in> set ''0123456789abcdef''" "hexdigit d \<in> set hexchars"
    "hexval (hexdigit d) = d" by blast+
qed

lemma round_trip_six:
  assumes "set [c1, c2, c3, c4, c5, c6] \<subseteq> set hexchars"
  shows "\<exists>ds. toHex (fillHex [CHR ''#'', c1, c2, c3, c4, c5, c6] this) = CHR ''#'' # ds
            \<and> length ds = 6 \<and> set ds \<subseteq> set ''0123456789abcdef''
            \<and> toRgbArray (fillHex (CHR ''#'' # ds) that)
              = toRgbArray (fillHex [CHR ''#'', c1, c2, c3, c4, c5, c6] this)"
proof -
  define a where "a = map hexval [c1, c2, c3, c4, c5, c6]"
  have a: "\<forall>d\<in>set a. 0 \<le> d \<and> d < 16" using assms hexchar_facts by (auto simp: a_def)
  define ds where "ds = map hexdigit a"
  have f: "fillHex [CHR ''#'', c1, c2, c3, c4, c5, c6] this =
           \<lparr>r = Some (Fin (of_int (16 * hexval c1 + hexval c2))),
            g = Some (Fin (of_int (16 * hexval c3 + hexval c4))),
            b = Some (Fin (of_int (16 * hexval c5 + hexval c6))), opacity = Some (Fin 1)\<rparr>"
    by (simp only: fillHex_six[OF assms]) (cases this, simp)
  have t: "toHex (fillHex [CHR ''#'', c1, c2, c3, c4, c5, c6] this) = CHR ''#'' # ds"
    unfolding f ds_def a_def using a by (subst toHex_bytes) (simp_all add: a_def)
  have dh: "set ds \<subseteq> set hexchars" "set ds \<subseteq> set ''0123456789abcdef''"
    using a hexdigit_facts unfolding ds_def by (auto simp del: set_simps)
  have ds6: "ds = [hexdigit (hexval c1), hexdigit (hexval c2), hexdigit (hexval c3),
                   hexdigit (hexval c4), hexdigit (hexval c5), hexdigit (hexval c6)]"
    by (simp add: ds_def a_def)
  have hv: "hexval (hexdigit (hexval c)) = hexval c" if "c \<in> set hexchars" for c
    using hexchar_facts[OF that] hexdigit_facts(3) by simp
  have "toRgbArray (fillHex (CHR ''#'' # ds) that) = toRgbArray (fillHex [CHR ''#'', c1, c2, c3, c4, c5, c6] this)"
    using dh(1) assms unfolding ds6
    by (subst fillHex_six) (simp_all add: fillHex_six toRgbArray_def hv)
  then show ?thesis using t dh(2) by (auto simp: ds_def a_def)
qed

text \<open>
  C4. For every string \<open>x\<close> that \<open>fillHex\<close> accepts, \<open>fillHex(x).toHex()\<close> is \<open>#\<close> followed
  by exactly six digits from \<open>0123456789abcdef\<close>, and \<open>fillHex\<close> of that string on a fresh
  object gives the same red, green and blue as \<open>fillHex(x)\<close> gave.
\<close>

theorem hex_round_trip:
  assumes "HEX_REGEXP x \<noteq> None"
  shows "length (toHex (fillHex x this)) = 7
       \<and> hd (toHex (fillHex x this)) = CHR ''#''
       \<and> set (tl (toHex (fillHex x this))) \<subseteq> set ''0123456789abcdef''
       \<and> toRgbArray (fillHex (toHex (fillHex x this)) SiteColor) = toRgbArray (fillHex x this)"
proof -
  from assms obtain cs where cs: "x = CHR ''#'' # cs" "length cs = 3 \<or> length cs = 6"
      "set cs \<subseteq> set hexchars"
    unfolding HEX_REGEXP_iff by blast
  have six: ?thesis if "x = [CHR ''#'', c1, c2, c3, c4, c5, c6]" "set [c1, c2, c3, c4, c5, c6] \<subseteq> set hexchars"
    for c1 c2 c3 c4 c5 c6
    using round_trip_six[OF that(2), of this SiteColor] that(1) by auto
  from cs(2) show ?thesis
  proof
    assume "length cs = 6"
    then obtain c1 c2 c3 c4 c5 c6 where "cs = [c1, c2, c3, c4, c5, c6]"
      by (auto simp: length_Suc_conv eval_nat_numeral)
    with cs show ?thesis by (intro six) auto
  next
    assume "length cs = 3"
    then obtain c1 c2 c3 where c: "cs = [c1, c2, c3]"
      by (auto simp: length_Suc_conv eval_nat_numeral)
    then have h: "set [c1, c2, c3] \<subseteq> set hexchars" "set [c1, c1, c2, c2, c3, c3] \<subseteq> set hexchars"
      using cs(3) by auto
    have "fillHex x this = fillHex [CHR ''#'', c1, c1, c2, c2, c3, c3] this"
      using fillHex_three[OF h(1)] cs(1) c by simp
    then show ?thesis using round_trip_six[OF h(2), of this SiteColor] by auto
  qed
qed

lemma example_fa1: "HEX_REGEXP ''#fa1'' \<noteq> None" "toHex (fillHex ''#fa1'' SiteColor) = ''#ffaa11''"
  by code_simp+

theorem hex_round_trip_witness:
  "HEX_REGEXP ''#fa1'' \<noteq> None
   \<and> toHex (fillHex ''#fa1'' SiteColor) = ''#ffaa11''
   \<and> toRgbArray (fillHex ''#ffaa11'' SiteColor) = toRgbArray (fillHex ''#fa1'' SiteColor)"
  using hex_round_trip[OF example_fa1(1), of SiteColor] example_fa1 by simp

lemma rne_minus: "rne (- x) = - rne x"
proof (cases "x = of_int \<lfloor>x\<rfloor>")
  case True
  then obtain z where "x = of_int z" ..
  then have "rne x = z" "rne (- x) = - z"
    using rne_of_int[of z] rne_of_int[of "- z"] by simp_all
  then show ?thesis by simp
next
  case False
  define n where "n = \<lfloor>x\<rfloor>"
  define f where "f = x - of_int n"
  have f: "0 < f" "f < 1" using False by (auto simp: f_def n_def) linarith+
  have m: "\<lfloor>- x\<rfloor> = - n - 1" unfolding n_def using False by (simp add: floor_minus ceiling_altdef)
  have mf: "- x - of_int (- n - 1) = 1 - f" by (simp add: f_def)
  have e: "even (- n - 1) \<longleftrightarrow> odd n" by simp
  have "rne x = (if f < 1 / 2 then n else if 1 / 2 < f then n + 1 else if even n then n else n + 1)"
    by (simp add: rne_def Let_def n_def f_def)
  moreover have "rne (- x) = (if 1 - f < 1 / 2 then - n - 1 else if 1 / 2 < 1 - f then - n
                              else if odd n then - n - 1 else - n)"
    unfolding rne_def Let_def m mf e by simp
  ultimately show ?thesis using f by (auto simp: field_simps)
qed

lemma fl_minus: "fl (- x) = - fl x"
  by (simp add: fl_def Let_def rne_minus)

lemma fl_abs: "\<bar>fl x\<bar> = fl \<bar>x\<bar>"
  using fl_nonneg[of x] fl_nonneg[of "- x"] by (cases "0 \<le> x") (simp_all add: fl_minus abs_if)

lemma fl_abs_le:
  assumes "\<bar>x\<bar> \<le> of_int m" "m \<le> 2 ^ 53"
  shows "\<bar>fl x\<bar> \<le> of_int m"
proof -
  have "0 \<le> m" using assms(1) by (metis abs_ge_zero of_int_0_le_iff order_trans)
  then have "fl (of_int m) = of_int m" using fl_of_int[of m] assms(2) by simp
  then show ?thesis using fl_mono[of "\<bar>x\<bar>" "of_int m"] assms(1) by (simp add: fl_abs)
qed

lemma js_round_Fin_abs:
  assumes "\<bar>x\<bar> \<le> 2 ^ 53"
  shows "js_round x = Fin (fl x)"
proof -
  have up: "\<bar>fl x\<bar> \<le> 2 ^ 53" using fl_abs_le[of x "2 ^ 53"] assms by simp
  have "ilog 2 \<bar>fl x\<bar> < 1024" if "fl x \<noteq> 0"
  proof (rule ccontr)
    assume "\<not> ilog 2 \<bar>fl x\<bar> < 1024"
    then have "54 \<le> ilog 2 \<bar>fl x\<bar>" by simp
    moreover have "0 < \<bar>fl x\<bar>" using that by simp
    ultimately have "powb 2 54 \<le> \<bar>fl x\<bar>"
      using powb_mono[of 2 54 "ilog 2 \<bar>fl x\<bar>"] ilog_bounds[of "\<bar>fl x\<bar>" 2] by simp
    then show False using up by (simp add: powb_def)
  qed
  then show ?thesis by (auto simp: js_round_def Let_def)
qed

lemma parseInt_number_trunc_abs:
  assumes "x = 0 \<or> 1 / 10 ^ 6 \<le> \<bar>x\<bar>" "\<bar>x\<bar> < 10 ^ 20"
  shows "parseInt_number x = Fin (of_int (trunc x))"
proof (cases "x = 0")
  case True then show ?thesis by (simp add: parseInt_number_def trunc_def)
next
  case False
  then have a: "1 / 10 ^ 6 \<le> \<bar>x\<bar>" using assms by simp
  have ax: "0 < \<bar>x\<bar>" using False by simp
  note b = ilog_bounds[OF ax, of 10, simplified]
  have lo: "- 6 \<le> ilog 10 \<bar>x\<bar>"
  proof (rule ccontr)
    assume "\<not> - 6 \<le> ilog 10 \<bar>x\<bar>"
    then have "ilog 10 \<bar>x\<bar> + 1 \<le> - 6" by simp
    from powb_mono[OF _ this, of 10] have "powb 10 (ilog 10 \<bar>x\<bar> + 1) \<le> 1 / 10 ^ 6"
      by (simp add: powb_def)
    with b a show False by simp
  qed
  have hi: "ilog 10 \<bar>x\<bar> \<le> 19"
  proof (rule ccontr)
    assume "\<not> ilog 10 \<bar>x\<bar> \<le> 19"
    then have "20 \<le> ilog 10 \<bar>x\<bar>" by simp
    from powb_mono[OF _ this, of 10] have "10 ^ 20 \<le> powb 10 (ilog 10 \<bar>x\<bar>)"
      by (simp add: powb_def)
    with b assms show False by simp
  qed
  obtain k d where s: "sci \<bar>x\<bar> = (k, d)" by (cases "sci \<bar>x\<bar>")
  with fst_sci[of "\<bar>x\<bar>"] lo hi have "- 7 < k \<and> k < 21" by auto
  then show ?thesis using False s by (simp add: parseInt_number_def trunc_def sgn_if)
qed

lemma parseInt_nonfinite: "parseInt (JNum NaN) = NaN" "parseInt (JNum PosInf) = NaN" "parseInt (JNum NegInf) = NaN"
  by code_simp+

lemma channel_of_number:
  assumes "\<not> tiny v" "small v"
  shows "(let c = numberBound (parseInt (JNum v)) (Fin 0) (Fin 255) in if isNaN c then None else Some c)
         = truncated v"
proof (cases v)
  case (Fin x)
  then have "\<bar>x\<bar> \<le> 510" using assms by (simp add: small_def)
  then have "\<bar>x\<bar> < 10 ^ 20" by (rule le_less_trans) simp
  moreover have "x = 0 \<or> 1 / 10 ^ 6 \<le> \<bar>x\<bar>" using assms Fin by (auto simp: tiny_def)
  ultimately show ?thesis using parseInt_number_trunc_abs[of x]
    by (simp add: Fin truncated_def numberBound_Fin min_def max_def)
qed (simp_all add: parseInt_nonfinite truncated_def numberBound_def Math_max_def Math_min_def del: parseInt.simps)

lemma setters_of_number:
  assumes "\<not> tiny v" "small v"
  shows "setRed (JNum v) this = this\<lparr>r := truncated v\<rparr>"
    "setGreen (JNum v) this = this\<lparr>g := truncated v\<rparr>"
    "setBlue (JNum v) this = this\<lparr>b := truncated v\<rparr>"
  using channel_of_number[OF assms] by (simp_all add: setRed_def setGreen_def setBlue_def Let_def del: parseInt.simps)

section \<open>Arithmetic on channels\<close>

lemma channel_value:
  assumes "channel_ok v" "v \<noteq> None"
  obtains c where "v = Some (Fin c)" "ToNumber v = Fin c" "0 \<le> c" "c \<le> 255" "c = 0 \<or> 1 \<le> c"
proof -
  from assms obtain c where c: "v = Some (Fin c)" "c \<in> \<int>" "0 \<le> c" "c \<le> 255"
    by (auto simp: channel_ok_def split: option.splits jsnum.splits)
  from c(2) obtain z where z: "c = of_int z" by (auto elim: Ints_cases)
  then have "z = 0 \<or> 1 \<le> z" using c(3) by auto
  then have "c = 0 \<or> 1 \<le> c" by (auto simp: z)
  with c show ?thesis using that by (simp add: ToNumber_def)
qed

lemma clamp_to_unit:
  assumes "clamp_to 0 1 n = Some P"
  obtains y where "P = Fin y" "0 \<le> y" "y \<le> 1" "numberBound n (Fin 0) (Fin 1) = Fin y"
proof -
  from assms obtain y where y: "P = Fin y" "0 \<le> y" "y \<le> 1"
    by (cases n) (auto simp: clamp_to_def split: if_splits)
  from numberBound_clamp_to[of 0 1 n] assms have "numberBound n (Fin 0) (Fin 1) = P"
    by (simp add: Let_def split: if_splits)
  with y show ?thesis using that by simp
qed

lemma clamp_to_none: "clamp_to 0 1 n = None \<Longrightarrow> numberBound n (Fin 0) (Fin 1) = NaN"
  using numberBound_clamp_to[of 0 1 n] by (cases "numberBound n (Fin 0) (Fin 1)") (simp_all add: Let_def)

lemma one_minus:
  assumes "0 \<le> y" "y \<le> 1"
  obtains q where "js_sub (Fin 1) (Fin y) = Fin q" "0 \<le> q" "q \<le> 1"
proof -
  have "js_sub (Fin 1) (Fin y) = Fin (fl (1 - y))" using assms by (simp add: js_sub_def js_round_Fin)
  moreover have "0 \<le> fl (1 - y)" using assms by (simp add: fl_nonneg)
  moreover have "fl (1 - y) \<le> 1" using fl_mono[of "1 - y" 1] assms by (simp add: fl_numeral)
  ultimately show ?thesis using that by blast
qed

lemma one_plus:
  assumes "0 \<le> y" "y \<le> 1"
  obtains q where "js_add (Fin 1) (Fin y) = Fin q" "1 \<le> q" "q \<le> 2"
proof -
  have "js_add (Fin 1) (Fin y) = Fin (fl (1 + y))" using assms by (simp add: js_round_Fin)
  moreover have "1 \<le> fl (1 + y)" using fl_mono[of 1 "1 + y"] assms by (simp add: fl_numeral)
  moreover have "fl (1 + y) \<le> 2" using fl_mono[of "1 + y" 2] fl_of_int[of 2] assms by simp
  ultimately show ?thesis using that by blast
qed

lemma product_small:
  assumes "0 \<le> c" "c \<le> 255" "0 \<le> q" "q \<le> 2"
  obtains x where "js_mul (Fin c) (Fin q) = Fin x" "0 \<le> x" "x \<le> 510"
proof -
  have cq: "0 \<le> c * q" "c * q \<le> 510" using assms mult_mono[of c 255 q 2] by simp_all
  then have "js_mul (Fin c) (Fin q) = Fin (fl (c * q))" by (simp add: js_round_Fin)
  moreover have "0 \<le> fl (c * q)" using cq by (simp add: fl_nonneg)
  moreover have "fl (c * q) \<le> 510" using fl_mono[of "c * q" 510] fl_of_int[of 510] cq by simp
  ultimately show ?thesis using that by blast
qed

lemma product_not_tiny:
  assumes "c = 0 \<or> 1 \<le> c" "c \<le> 255" "1 \<le> q" "q \<le> 2"
  shows "\<not> tiny (js_mul (Fin c) (Fin q))"
proof (cases "c = 0")
  case True
  then show ?thesis by (simp add: js_round_def fl_0 tiny_def)
next
  case False
  then have c: "1 \<le> c" using assms by simp
  have cq: "1 \<le> c * q" "c * q \<le> 510" using assms c mult_mono[of 1 c 1 q] mult_mono[of c 255 q 2] by simp_all
  then have "js_mul (Fin c) (Fin q) = Fin (fl (c * q))" by (simp add: js_round_Fin)
  moreover have "1 \<le> fl (c * q)" using fl_mono[of 1 "c * q"] cq by (simp add: fl_numeral)
  ultimately show ?thesis by (simp add: tiny_def)
qed

lemma setter_frames:
  "g (setRed v this) = g this" "b (setRed v this) = b this" "opacity (setRed v this) = opacity this"
  "r (setGreen v this) = r this" "b (setGreen v this) = b this" "opacity (setGreen v this) = opacity this"
  "r (setBlue v this) = r this" "g (setBlue v this) = g this" "opacity (setBlue v this) = opacity this"
  "r (setOpacity v this) = r this" "g (setOpacity v this) = g this" "b (setOpacity v this) = b this"
  by (simp_all add: setRed_def setGreen_def setBlue_def setOpacity_def Let_def)

lemma setter_fields:
  "r (setRed (JNum v) this) = clamp_to 0 255 (parseInt (JNum v))"
  "g (setGreen (JNum v) this) = clamp_to 0 255 (parseInt (JNum v))"
  "b (setBlue (JNum v) this) = clamp_to 0 255 (parseInt (JNum v))"
  by (simp_all add: setters_clamp del: parseInt.simps)

lemma stored_truncated:
  assumes "\<not> tiny v" "small v"
  shows "clamp_to 0 255 (parseInt (JNum v)) = truncated v"
  using channel_of_number[OF assms] numberBound_clamp_to[of 0 255 "parseInt (JNum v)"] by simp

lemma darken_fields:
  defines "F p \<equiv> js_sub (Fin 1) (numberBound (parseFloat p) (Fin 0) (Fin 1))"
  shows "r (darken p this) = clamp_to 0 255 (parseInt (JNum (js_mul (ToNumber (r this)) (F p))))"
    "g (darken p this) = clamp_to 0 255 (parseInt (JNum (js_mul (ToNumber (g this)) (F p))))"
    "b (darken p this) = clamp_to 0 255 (parseInt (JNum (js_mul (ToNumber (b this)) (F p))))"
    "opacity (darken p this) = opacity this"
  by (simp_all add: darken_def Let_def setter_frames setter_fields F_def del: parseInt.simps parseFloat.simps)

lemma lighten_fields:
  defines "F p \<equiv> js_add (Fin 1) (numberBound (parseFloat p) (Fin 0) (Fin 1))"
  shows "r (lighten p this) = clamp_to 0 255 (parseInt (JNum (js_mul (ToNumber (r this)) (F p))))"
    "g (lighten p this) = clamp_to 0 255 (parseInt (JNum (js_mul (ToNumber (g this)) (F p))))"
    "b (lighten p this) = clamp_to 0 255 (parseInt (JNum (js_mul (ToNumber (b this)) (F p))))"
    "opacity (lighten p this) = opacity this"
  by (simp_all add: lighten_def Let_def setter_frames setter_fields F_def del: parseInt.simps parseFloat.simps)

lemma darken_channel:
  assumes "channel_ok v" "v \<noteq> None" "clamp_to 0 1 n = Some P"
    "\<not> tiny (js_mul (ToNumber v) (js_sub (Fin 1) P))"
  shows "clamp_to 0 255 (parseInt (JNum (js_mul (ToNumber v) (js_sub (Fin 1) (numberBound n (Fin 0) (Fin 1))))))
         = truncated (js_mul (ToNumber v) (js_sub (Fin 1) P))"
proof -
  from channel_value[OF assms(1,2)] obtain c where c: "ToNumber v = Fin c" "0 \<le> c" "c \<le> 255" by metis
  from clamp_to_unit[OF assms(3)] obtain y where y: "P = Fin y" "0 \<le> y" "y \<le> 1"
    "numberBound n (Fin 0) (Fin 1) = Fin y" by metis
  from one_minus[OF y(2,3)] obtain q where q: "js_sub (Fin 1) (Fin y) = Fin q" "0 \<le> q" "q \<le> 1" by metis
  have q2: "q \<le> 2" using q(3) by simp
  from product_small[OF c(2,3) q(2) q2] obtain x where
    x: "js_mul (Fin c) (Fin q) = Fin x" "0 \<le> x" "x \<le> 510" by metis
  have "js_mul (ToNumber v) (js_sub (Fin 1) P) = Fin x" by (simp only: c(1) y(1) q(1) x(1))
  then have "small (js_mul (ToNumber v) (js_sub (Fin 1) P))" using x by (simp add: small_def)
  from stored_truncated[OF assms(4) this] show ?thesis by (simp only: y)
qed

lemma lighten_channel:
  assumes "channel_ok v" "v \<noteq> None" "clamp_to 0 1 n = Some P"
  shows "clamp_to 0 255 (parseInt (JNum (js_mul (ToNumber v) (js_add (Fin 1) (numberBound n (Fin 0) (Fin 1))))))
         = truncated (js_mul (ToNumber v) (js_add (Fin 1) P))"
proof -
  from channel_value[OF assms(1,2)] obtain c where c: "ToNumber v = Fin c" "0 \<le> c" "c \<le> 255"
    "c = 0 \<or> 1 \<le> c" by metis
  from clamp_to_unit[OF assms(3)] obtain y where y: "P = Fin y" "0 \<le> y" "y \<le> 1"
    "numberBound n (Fin 0) (Fin 1) = Fin y" by metis
  from one_plus[OF y(2,3)] obtain q where q: "js_add (Fin 1) (Fin y) = Fin q" "1 \<le> q" "q \<le> 2" by metis
  have q0: "0 \<le> q" using q(2) by simp
  from product_small[OF c(2,3) q0 q(3)] obtain x where
    x: "js_mul (Fin c) (Fin q) = Fin x" "0 \<le> x" "x \<le> 510" by metis
  have "js_mul (ToNumber v) (js_add (Fin 1) P) = Fin x" by (simp only: c(1) y(1) q(1) x(1))
  then have s: "small (js_mul (ToNumber v) (js_add (Fin 1) P))" using x by (simp add: small_def)
  have t: "\<not> tiny (js_mul (ToNumber v) (js_add (Fin 1) P))"
    unfolding c(1) y(1) q(1) by (rule product_not_tiny[OF c(4,3) q(2,3)])
  from stored_truncated[OF t s] show ?thesis by (simp only: y)
qed

lemma nan_factor: "js_sub (Fin 1) NaN = NaN" "js_add (Fin 1) NaN = NaN"
  by (simp_all add: js_sub_def)

lemma nan_channel: "clamp_to 0 255 (parseInt (JNum (js_mul v NaN))) = None"
  by (cases v) (simp_all add: parseInt_nonfinite clamp_to_def del: parseInt.simps)

lemma blendWith_fields:
  defines "F p \<equiv> numberBound (parseFloat p) (Fin 0) (Fin 1)"
  shows "r (blendWith color p this) = clamp_to 0 255 (parseInt (JNum (interpolate (r color) (r this) (F p))))"
    "g (blendWith color p this) = clamp_to 0 255 (parseInt (JNum (interpolate (g color) (g this) (F p))))"
    "b (blendWith color p this) = clamp_to 0 255 (parseInt (JNum (interpolate (b color) (b this) (F p))))"
    "opacity (blendWith color p this) = opacity this"
  by (simp_all add: blendWith_def Let_def setter_frames setter_fields F_def interpolate_def
      del: parseInt.simps parseFloat.simps)

lemma interpolate_small:
  assumes "channel_ok v" "v \<noteq> None" "channel_ok w" "w \<noteq> None" "0 \<le> y" "y \<le> 1"
  shows "small (interpolate v w (Fin y))"
proof -
  from channel_value[OF assms(1,2)] obtain c where c: "ToNumber v = Fin c" "0 \<le> c" "c \<le> 255" by metis
  from channel_value[OF assms(3,4)] obtain d where d: "ToNumber w = Fin d" "0 \<le> d" "d \<le> 255" by metis
  define e where "e = fl (c - d)"
  have "\<bar>c - d\<bar> \<le> of_int 255" using c d by simp
  then have e: "js_sub (Fin c) (Fin d) = Fin e" "\<bar>e\<bar> \<le> 255"
    using fl_abs_le[of "c - d" 255] js_round_Fin_abs[of "c - d"] by (simp_all add: js_sub_def e_def)
  define m where "m = fl (e * y)"
  have "\<bar>e * y\<bar> \<le> 255 * 1" unfolding abs_mult using e(2) assms(5,6) by (intro mult_mono) simp_all
  then have ey: "\<bar>e * y\<bar> \<le> of_int 255" by simp
  then have m: "js_mul (Fin e) (Fin y) = Fin m" "\<bar>m\<bar> \<le> 255"
    using fl_abs_le[of "e * y" 255] js_round_Fin_abs[of "e * y"] by (simp_all add: m_def)
  have "\<bar>m + d\<bar> \<le> of_int 510" using m(2) d by simp
  then have "js_add (Fin m) (Fin d) = Fin (fl (m + d))" "\<bar>fl (m + d)\<bar> \<le> 510"
    using fl_abs_le[of "m + d" 510] js_round_Fin_abs[of "m + d"] by simp_all
  then show ?thesis by (simp add: interpolate_def c(1) d(1) e(1) m(1) small_def del: js_add.simps js_mul.simps)
qed

lemma blend_channel:
  assumes "channel_ok v" "v \<noteq> None" "channel_ok w" "w \<noteq> None" "clamp_to 0 1 n = Some P"
    "\<not> tiny (interpolate v w P)"
  shows "clamp_to 0 255 (parseInt (JNum (interpolate v w (numberBound n (Fin 0) (Fin 1)))))
         = truncated (interpolate v w P)"
proof -
  from clamp_to_unit[OF assms(5)] obtain y where y: "P = Fin y" "0 \<le> y" "y \<le> 1"
    "numberBound n (Fin 0) (Fin 1) = Fin y" by metis
  have "small (interpolate v w P)" unfolding y(1) by (rule interpolate_small[OF assms(1-4) y(2,3)])
  from stored_truncated[OF assms(6) this] show ?thesis by (simp only: y)
qed

lemma nan_blend: "clamp_to 0 255 (parseInt (JNum (interpolate v w NaN))) = None"
  by (cases "js_sub (ToNumber v) (ToNumber w)"; cases "ToNumber w")
     (simp_all add: interpolate_def parseInt_nonfinite clamp_to_def del: parseInt.simps)

section \<open>C7: darken and lighten\<close>

text \<open>
  C7, as stated, fails in two ways. For a percent that is not a number, here \<open>NaN\<close>,
  \<open>darken\<close> leaves the three channels unset and not a product clamped to 0..255. And for
  the percent \<open>1 - 2^-20\<close> on \<open>#010101\<close> the product of a channel with \<open>1 - percent\<close> is
  \<open>2^-20\<close>, whose truncation is 0, but \<open>darken\<close> stores 9: the setter reads the first
  digit of the text \<open>9.5367431640625e-7\<close>.
\<close>

theorem darken_lighten_counterexample:
  "toRgbArray (fill ''#fa1'' SiteColor) = [Some (Fin 255), Some (Fin 170), Some (Fin 17)]
   \<and> toRgbArray (darken (JNum NaN) (fill ''#fa1'' SiteColor)) = [None, None, None]
   \<and> toRgbArray (fill ''#010101'' SiteColor) = [Some (Fin 1), Some (Fin 1), Some (Fin 1)]
   \<and> js_mul (Fin 1) (js_sub (Fin 1) (Fin (1 - 1 / 2 ^ 20))) = Fin (1 / 2 ^ 20)
   \<and> toRgbArray (darken (JNum (Fin (1 - 1 / 2 ^ 20))) (fill ''#010101'' SiteColor))
       = [Some (Fin 9), Some (Fin 9), Some (Fin 9)]"
  by code_simp

lemma lighten_fixture:
  "toString numtext (lighten (JNum (lit (2 / 10))) (fill ''#fa1'' SiteColor)) = ''#ffcc14''"
  by code_simp

text \<open>
  C7, amended. Let the three channels of a colour be set, each an integer from 0 to 255.
  When the percent is not read as a number, \<open>darken\<close> and \<open>lighten\<close> leave the three
  channels unset. Otherwise let \<open>P\<close> be the percent clamped to the range from 0 to 1. Then
  \<open>lighten\<close> replaces each channel by its product with \<open>1 + P\<close>, truncated toward zero and
  clamped to 0..255, and \<open>darken\<close> replaces each channel by its product with \<open>1 - P\<close>,
  truncated toward zero and clamped to 0..255, whenever that product is 0 or at least
  \<open>10^-6\<close> (nothing is said of \<open>darken\<close> on a smaller product). Neither changes the
  opacity, and \<open>fill('#fa1').lighten(0.2).toString()\<close> is \<open>#ffcc14\<close>.
\<close>

theorem darken_lighten_channels:
  assumes "channels_set this"
  shows "(clamp_to 0 1 (parseFloat p) = None \<longrightarrow>
            toRgbArray (darken p this) = [None, None, None]
          \<and> toRgbArray (lighten p this) = [None, None, None])
       \<and> (clamp_to 0 1 (parseFloat p) = Some P \<longrightarrow>
            (\<not> tiny (js_mul (ToNumber (r this)) (js_sub (Fin 1) P)) \<longrightarrow>
               r (darken p this) = truncated (js_mul (ToNumber (r this)) (js_sub (Fin 1) P)))
          \<and> (\<not> tiny (js_mul (ToNumber (g this)) (js_sub (Fin 1) P)) \<longrightarrow>
               g (darken p this) = truncated (js_mul (ToNumber (g this)) (js_sub (Fin 1) P)))
          \<and> (\<not> tiny (js_mul (ToNumber (b this)) (js_sub (Fin 1) P)) \<longrightarrow>
               b (darken p this) = truncated (js_mul (ToNumber (b this)) (js_sub (Fin 1) P)))
          \<and> r (lighten p this) = truncated (js_mul (ToNumber (r this)) (js_add (Fin 1) P))
          \<and> g (lighten p this) = truncated (js_mul (ToNumber (g this)) (js_add (Fin 1) P))
          \<and> b (lighten p this) = truncated (js_mul (ToNumber (b this)) (js_add (Fin 1) P)))
       \<and> opacity (darken p this) = opacity this \<and> opacity (lighten p this) = opacity this
       \<and> toString numtext (lighten (JNum (lit (2 / 10))) (fill ''#fa1'' SiteColor)) = ''#ffcc14''"
proof -
  from assms have c: "channel_ok (r this)" "r this \<noteq> None" "channel_ok (g this)" "g this \<noteq> None"
      "channel_ok (b this)" "b this \<noteq> None"
    by (simp_all add: channels_set_def invariant_def)
  have none: "toRgbArray (darken p this) = [None, None, None]
      \<and> toRgbArray (lighten p this) = [None, None, None]" if "clamp_to 0 1 (parseFloat p) = None"
    using clamp_to_none[OF that]
    by (simp add: toRgbArray_def darken_fields lighten_fields nan_factor nan_channel del: parseInt.simps parseFloat.simps)
  have some: "(\<not> tiny (js_mul (ToNumber (r this)) (js_sub (Fin 1) P)) \<longrightarrow>
               r (darken p this) = truncated (js_mul (ToNumber (r this)) (js_sub (Fin 1) P)))
          \<and> (\<not> tiny (js_mul (ToNumber (g this)) (js_sub (Fin 1) P)) \<longrightarrow>
               g (darken p this) = truncated (js_mul (ToNumber (g this)) (js_sub (Fin 1) P)))
          \<and> (\<not> tiny (js_mul (ToNumber (b this)) (js_sub (Fin 1) P)) \<longrightarrow>
               b (darken p this) = truncated (js_mul (ToNumber (b this)) (js_sub (Fin 1) P)))
          \<and> r (lighten p this) = truncated (js_mul (ToNumber (r this)) (js_add (Fin 1) P))
          \<and> g (lighten p this) = truncated (js_mul (ToNumber (g this)) (js_add (Fin 1) P))
          \<and> b (lighten p this) = truncated (js_mul (ToNumber (b this)) (js_add (Fin 1) P))"
    if "clamp_to 0 1 (parseFloat p) = Some P"
    using darken_channel[OF c(1,2) that] darken_channel[OF c(3,4) that] darken_channel[OF c(5,6) that]
      lighten_channel[OF c(1,2) that] lighten_channel[OF c(3,4) that] lighten_channel[OF c(5,6) that]
    by (simp only: darken_fields lighten_fields) blast
  show ?thesis
    using none some lighten_fixture[of numtext]
    by (simp only: darken_fields(4) lighten_fields(4)) blast
qed

lemma percent_20:
  "clamp_to 0 1 (parseFloat (JNum (lit (2 / 10)))) = Some (lit (2 / 10))"
  "\<not> tiny (js_mul (Fin 255) (js_sub (Fin 1) (lit (2 / 10))))"
  "\<not> tiny (js_mul (Fin 170) (js_sub (Fin 1) (lit (2 / 10))))"
  "\<not> tiny (js_mul (Fin 17) (js_sub (Fin 1) (lit (2 / 10))))"
  "truncated (js_mul (Fin 255) (js_sub (Fin 1) (lit (2 / 10)))) = Some (Fin 204)"
  "truncated (js_mul (Fin 170) (js_sub (Fin 1) (lit (2 / 10)))) = Some (Fin 136)"
  "truncated (js_mul (Fin 17) (js_sub (Fin 1) (lit (2 / 10)))) = Some (Fin 13)"
  "truncated (js_mul (Fin 255) (js_add (Fin 1) (lit (2 / 10)))) = Some (Fin 255)"
  "truncated (js_mul (Fin 170) (js_add (Fin 1) (lit (2 / 10)))) = Some (Fin 204)"
  "truncated (js_mul (Fin 17) (js_add (Fin 1) (lit (2 / 10)))) = Some (Fin 20)"
  by code_simp+

theorem darken_lighten_channels_witness:
  "channels_set (fill ''#fa1'' SiteColor)
   \<and> clamp_to 0 1 (parseFloat (JNum (lit (2 / 10)))) = Some (lit (2 / 10))
   \<and> toRgbArray (darken (JNum (lit (2 / 10))) (fill ''#fa1'' SiteColor))
       = [Some (Fin 204), Some (Fin 136), Some (Fin 13)]
   \<and> toRgbArray (lighten (JNum (lit (2 / 10))) (fill ''#fa1'' SiteColor))
       = [Some (Fin 255), Some (Fin 204), Some (Fin 20)]"
proof -
  have cs: "channels_set (fill ''#fa1'' SiteColor)"
    unfolding fa1_value by (simp add: channels_set_def invariant_def channel_ok_def opacity_ok_def)
  from darken_lighten_channels[OF cs, of "JNum (lit (2 / 10))" "lit (2 / 10)"] percent_20 cs
  show ?thesis
    by (simp add: toRgbArray_def fa1_value ToNumber_def del: parseFloat.simps js_mul.simps)
qed

section \<open>C8: blendWith\<close>

text \<open>
  C8, as stated, fails in two ways. For a percent that is not a number, here \<open>NaN\<close>,
  \<open>blendWith\<close> leaves the three channels unset. And blending \<open>#000000\<close> with \<open>#010101\<close>
  by the percent \<open>2^-20\<close> interpolates each channel to \<open>2^-20\<close>, whose truncation is 0, but
  \<open>blendWith\<close> stores 9, the first digit of the text \<open>9.5367431640625e-7\<close>.
\<close>

theorem blendWith_counterexample:
  "toRgbArray (fill ''#000'' SiteColor) = [Some (Fin 0), Some (Fin 0), Some (Fin 0)]
   \<and> toRgbArray (fill ''#010101'' SiteColor) = [Some (Fin 1), Some (Fin 1), Some (Fin 1)]
   \<and> toRgbArray (blendWith (fill ''#010101'' SiteColor) (JNum NaN) (fill ''#000'' SiteColor))
       = [None, None, None]
   \<and> interpolate (Some (Fin 1)) (Some (Fin 0)) (Fin (1 / 2 ^ 20)) = Fin (1 / 2 ^ 20)
   \<and> toRgbArray (blendWith (fill ''#010101'' SiteColor) (JNum (Fin (1 / 2 ^ 20))) (fill ''#000'' SiteColor))
       = [Some (Fin 9), Some (Fin 9), Some (Fin 9)]"
  by code_simp

text \<open>
  C8, amended. Let the three channels of both colours be set, each an integer from 0 to
  255. When the percent is not read as a number, \<open>blendWith\<close> leaves the three channels of
  the receiver unset. Otherwise let \<open>P\<close> be the percent clamped to the range from 0 to 1.
  Then \<open>blendWith\<close> replaces each channel of the receiver by
  \<open>(other.channel - this.channel) * P + this.channel\<close>, truncated toward zero and clamped
  to 0..255, whenever that value is 0 or of magnitude at least \<open>10^-6\<close> (nothing is said on
  a smaller value). The opacity of the receiver is unchanged.
\<close>

theorem blendWith_channels:
  assumes "channels_set this" "channels_set color"
  shows "(clamp_to 0 1 (parseFloat p) = None \<longrightarrow>
            toRgbArray (blendWith color p this) = [None, None, None])
       \<and> (clamp_to 0 1 (parseFloat p) = Some P \<longrightarrow>
            (\<not> tiny (interpolate (r color) (r this) P) \<longrightarrow>
               r (blendWith color p this) = truncated (interpolate (r color) (r this) P))
          \<and> (\<not> tiny (interpolate (g color) (g this) P) \<longrightarrow>
               g (blendWith color p this) = truncated (interpolate (g color) (g this) P))
          \<and> (\<not> tiny (interpolate (b color) (b this) P) \<longrightarrow>
               b (blendWith color p this) = truncated (interpolate (b color) (b this) P)))
       \<and> opacity (blendWith color p this) = opacity this"
proof -
  from assms(1) have c: "channel_ok (r this)" "r this \<noteq> None" "channel_ok (g this)" "g this \<noteq> None"
      "channel_ok (b this)" "b this \<noteq> None"
    by (simp_all add: channels_set_def invariant_def)
  from assms(2) have d: "channel_ok (r color)" "r color \<noteq> None" "channel_ok (g color)" "g color \<noteq> None"
      "channel_ok (b color)" "b color \<noteq> None"
    by (simp_all add: channels_set_def invariant_def)
  have none: "toRgbArray (blendWith color p this) = [None, None, None]"
    if "clamp_to 0 1 (parseFloat p) = None"
    using clamp_to_none[OF that]
    by (simp add: toRgbArray_def blendWith_fields nan_blend del: parseInt.simps parseFloat.simps)
  have some: "(\<not> tiny (interpolate (r color) (r this) P) \<longrightarrow>
               r (blendWith color p this) = truncated (interpolate (r color) (r this) P))
          \<and> (\<not> tiny (interpolate (g color) (g this) P) \<longrightarrow>
               g (blendWith color p this) = truncated (interpolate (g color) (g this) P))
          \<and> (\<not> tiny (interpolate (b color) (b this) P) \<longrightarrow>
               b (blendWith color p this) = truncated (interpolate (b color) (b this) P))"
    if "clamp_to 0 1 (parseFloat p) = Some P"
    using blend_channel[OF d(1,2) c(1,2) that] blend_channel[OF d(3,4) c(3,4) that]
      blend_channel[OF d(5,6) c(5,6) that]
    by (simp only: blendWith_fields) blast
  show ?thesis
    using none some by (simp only: blendWith_fields(4)) blast
qed

lemma black_value:
  "fill ''#000'' SiteColor = \<lparr>r = Some (Fin 0), g = Some (Fin 0), b = Some (Fin 0), opacity = Some (Fin 1)\<rparr>"
  by code_simp

lemma percent_half:
  "clamp_to 0 1 (parseFloat (JNum (Fin (1 / 2)))) = Some (Fin (1 / 2))"
  "\<not> tiny (interpolate (Some (Fin 255)) (Some (Fin 0)) (Fin (1 / 2)))"
  "\<not> tiny (interpolate (Some (Fin 170)) (Some (Fin 0)) (Fin (1 / 2)))"
  "\<not> tiny (interpolate (Some (Fin 17)) (Some (Fin 0)) (Fin (1 / 2)))"
  "truncated (interpolate (Some (Fin 255)) (Some (Fin 0)) (Fin (1 / 2))) = Some (Fin 127)"
  "truncated (interpolate (Some (Fin 170)) (Some (Fin 0)) (Fin (1 / 2))) = Some (Fin 85)"
  "truncated (interpolate (Some (Fin 17)) (Some (Fin 0)) (Fin (1 / 2))) = Some (Fin 8)"
  by code_simp+

theorem blendWith_channels_witness:
  "channels_set (fill ''#000'' SiteColor) \<and> channels_set (fill ''#fa1'' SiteColor)
   \<and> clamp_to 0 1 (parseFloat (JNum (Fin (1 / 2)))) = Some (Fin (1 / 2))
   \<and> toRgbArray (blendWith (fill ''#fa1'' SiteColor) (JNum (Fin (1 / 2))) (fill ''#000'' SiteColor))
       = [Some (Fin 127), Some (Fin 85), Some (Fin 8)]
   \<and> opacity (blendWith (fill ''#fa1'' SiteColor) (JNum (Fin (1 / 2))) (fill ''#000'' SiteColor)) = Some (Fin 1)"
proof -
  have cs: "channels_set (fill ''#000'' SiteColor)" "channels_set (fill ''#fa1'' SiteColor)"
    unfolding fa1_value black_value
    by (simp_all add: channels_set_def invariant_def channel_ok_def opacity_ok_def)
  from blendWith_channels[OF cs, of "JNum (Fin (1 / 2))" "Fin (1 / 2)"] percent_half cs
  show ?thesis
    by (simp add: toRgbArray_def fa1_value black_value del: parseFloat.simps)
qed

section \<open>C9: darken then lighten\<close>

text \<open>
  C9. \<open>darken(p)\<close> followed by \<open>lighten(p)\<close> does not always give the colour back: there is
  a colour with its channels set, each an integer from 0 to 255, and a percent from 0 to 1,
  for which the channels after the two calls differ from the channels before. On
  \<open>#010101\<close> and the percent \<open>0.5\<close>, \<open>darken\<close> stores the truncation 0 of the product
  \<open>0.5\<close>, and \<open>lighten\<close> then leaves 0.
\<close>

theorem darken_lighten_not_inverse:
  "\<exists>this p. channels_set this \<and> 0 \<le> p \<and> p \<le> 1
     \<and> toRgbArray (lighten (JNum (Fin p)) (darken (JNum (Fin p)) this)) \<noteq> toRgbArray this"
proof -
  define this where "this = fill ''#010101'' SiteColor"
  have v: "this = \<lparr>r = Some (Fin 1), g = Some (Fin 1), b = Some (Fin 1), opacity = Some (Fin 1)\<rparr>"
    unfolding this_def by code_simp
  have "channels_set this"
    unfolding v by (simp add: channels_set_def invariant_def channel_ok_def opacity_ok_def)
  moreover have "toRgbArray (darken (JNum (Fin (1 / 2))) this) = [Some (Fin 0), Some (Fin 0), Some (Fin 0)]"
    unfolding v by code_simp
  moreover have "toRgbArray (lighten (JNum (Fin (1 / 2))) (darken (JNum (Fin (1 / 2))) this))
                 = [Some (Fin 0), Some (Fin 0), Some (Fin 0)]"
    unfolding v by code_simp
  moreover have "toRgbArray this = [Some (Fin 1), Some (Fin 1), Some (Fin 1)]"
    unfolding v by (simp add: toRgbArray_def)
  ultimately have "channels_set this \<and> (0::real) \<le> 1 / 2 \<and> (1 / 2 :: real) \<le> 1
     \<and> toRgbArray (lighten (JNum (Fin (1 / 2))) (darken (JNum (Fin (1 / 2))) this)) \<noteq> toRgbArray this"
    by simp
  then show ?thesis by blast
qed

section \<open>C10: unset channels\<close>

text \<open>
  C10, as stated, fails for a percent that is not a number: after \<open>darken(NaN)\<close>,
  \<open>lighten(NaN)\<close> or \<open>darken()\<close> on a new colour the three channels are still unset.
\<close>

theorem unset_channels_counterexample:
  "toRgbArray SiteColor = [None, None, None]
   \<and> toRgbArray (darken (JNum NaN) SiteColor) = [None, None, None]
   \<and> toRgbArray (lighten (JNum NaN) SiteColor) = [None, None, None]
   \<and> toRgbArray (darken JUndefined SiteColor) = [None, None, None]"
  by code_simp

text \<open>
  C10, amended. On a colour whose red, green and blue are unset, \<open>darken(p)\<close> and
  \<open>lighten(p)\<close> set the three channels to 0 for every percent that \<open>parseFloat\<close> reads as a
  number, and leave them unset for every other percent.
\<close>

theorem unset_channels:
  assumes "r this = None" "g this = None" "b this = None"
  shows "(parseFloat p \<noteq> NaN \<longrightarrow>
            toRgbArray (darken p this) = [Some (Fin 0), Some (Fin 0), Some (Fin 0)]
          \<and> toRgbArray (lighten p this) = [Some (Fin 0), Some (Fin 0), Some (Fin 0)])
       \<and> (parseFloat p = NaN \<longrightarrow>
            toRgbArray (darken p this) = [None, None, None]
          \<and> toRgbArray (lighten p this) = [None, None, None])"
proof -
  have z: "clamp_to 0 255 (parseInt (JNum (js_mul (Fin 0) (Fin q)))) = Some (Fin 0)" for q
    by (simp add: js_round_def fl_0 parseInt_number_def clamp_to_def)
  have num: "toRgbArray (darken p this) = [Some (Fin 0), Some (Fin 0), Some (Fin 0)]
          \<and> toRgbArray (lighten p this) = [Some (Fin 0), Some (Fin 0), Some (Fin 0)]"
    if "parseFloat p \<noteq> NaN"
  proof -
    from that obtain P where "clamp_to 0 1 (parseFloat p) = Some P"
      by (cases "parseFloat p") (auto simp: clamp_to_def)
    from clamp_to_unit[OF this] obtain y where y: "0 \<le> y" "y \<le> 1"
      "numberBound (parseFloat p) (Fin 0) (Fin 1) = Fin y" by metis
    from one_minus[OF y(1,2)] obtain q where q: "js_sub (Fin 1) (Fin y) = Fin q" by metis
    from one_plus[OF y(1,2)] obtain q' where q': "js_add (Fin 1) (Fin y) = Fin q'" by metis
    show ?thesis
      by (simp only: toRgbArray_def darken_fields lighten_fields assms ToNumber_def option.case y(3) q q' z)
  qed
  have nan: "toRgbArray (darken p this) = [None, None, None]
          \<and> toRgbArray (lighten p this) = [None, None, None]" if "parseFloat p = NaN"
    by (simp add: toRgbArray_def darken_fields lighten_fields that numberBound_def Math_max_def
        Math_min_def nan_factor nan_channel del: parseInt.simps parseFloat.simps)
  from num nan show ?thesis by blast
qed

theorem unset_channels_witness:
  "r SiteColor = None \<and> g SiteColor = None \<and> b SiteColor = None
   \<and> parseFloat (JNum (Fin (1 / 2))) \<noteq> NaN \<and> parseFloat (JStr ''x'') = NaN
   \<and> toRgbArray (darken (JNum (Fin (1 / 2))) SiteColor) = [Some (Fin 0), Some (Fin 0), Some (Fin 0)]
   \<and> toRgbArray (lighten (JNum (Fin (1 / 2))) SiteColor) = [Some (Fin 0), Some (Fin 0), Some (Fin 0)]
   \<and> toRgbArray (darken (JStr ''x'') SiteColor) = [None, None, None]"
proof -
  have u: "r SiteColor = None" "g SiteColor = None" "b SiteColor = None"
    by (simp_all add: SiteColor_def)
  have x: "parseFloat (JStr ''x'') = NaN" by code_simp
  from unset_channels[OF u, of "JNum (Fin (1 / 2))"] unset_channels[OF u, of "JStr ''x''"] u x
  show ?thesis by (simp del: parseFloat.simps) simp
qed

section \<open>Rounding errors\<close>

lemma lit_Fin: "0 \<le> x \<Longrightarrow> x \<le> 2 ^ 53 \<Longrightarrow> lit x = Fin (fl x)"
  by (simp add: lit_def js_round_Fin)

lemma fl_unit: "0 \<le> x \<Longrightarrow> x \<le> 1 \<Longrightarrow> 0 \<le> fl x \<and> fl x \<le> 1"
  using fl_mono[of x 1] fl_nonneg[of x] by (simp add: fl_numeral)

lemma fl_ge_one: "1 \<le> x \<Longrightarrow> 1 \<le> fl x"
  using fl_mono[of 1 x] by (simp add: fl_numeral)

lemma js_round_unit: "0 \<le> x \<Longrightarrow> x \<le> 1 \<Longrightarrow> js_round x = Fin (fl x)"
  by (rule js_round_Fin) simp_all

lemma rne_error: "\<bar>of_int (rne z) - z\<bar> \<le> 1 / 2"
proof -
  have "of_int \<lfloor>z\<rfloor> \<le> z" "z < of_int \<lfloor>z\<rfloor> + 1" by linarith+
  then show ?thesis by (auto simp: rne_def Let_def abs_le_iff)
qed

lemma fl_half_ulp: assumes "x \<noteq> 0" shows "\<bar>fl x - x\<bar> \<le> powb 2 (fexp x) / 2"
proof -
  define P where "P = powb 2 (fexp x)"
  have P: "0 < P" by (simp add: P_def powb_pos)
  have "fl x = of_int (rne (x / P)) * P" using assms by (simp add: fl_alt P_def)
  then have "fl x - x = (of_int (rne (x / P)) - x / P) * P" using P by (simp add: field_simps)
  then have "\<bar>fl x - x\<bar> = \<bar>of_int (rne (x / P)) - x / P\<bar> * P" using P by (simp add: abs_mult)
  also have "\<dots> \<le> 1 / 2 * P" using rne_error[of "x / P"] P by (intro mult_right_mono) simp_all
  finally show ?thesis by (simp add: P_def)
qed

lemma fl_abs_error:
  assumes "0 \<le> x" "x \<le> 2 ^ k" "k \<le> 53"
  shows "\<bar>fl x - x\<bar> \<le> 2 ^ k / 2 ^ 54"
proof (cases "x = 0 \<or> x = 2 ^ k")
  case True
  have "(2::int) ^ k \<le> 2 ^ 53" using assms(3) by (intro power_increasing) simp_all
  then have "fl (of_int (2 ^ k)) = of_int (2 ^ k)" by (intro fl_of_int) simp
  then have "fl (2 ^ k) = 2 ^ k" by simp
  with True show ?thesis by (auto simp: fl_0)
next
  case False
  then have x: "0 < x" "x < 2 ^ k" "x \<noteq> 0" using assms by simp_all
  have "ilog 2 x < int k"
  proof (rule ccontr)
    assume "\<not> ilog 2 x < int k"
    then have "int k \<le> ilog 2 x" by simp
    then have "powb 2 (int k) \<le> powb 2 (ilog 2 x)" by (intro powb_mono) simp_all
    also have "\<dots> \<le> x" using ilog_bounds[OF x(1), of 2] by simp
    finally show False using x(2) by (simp add: powb_def)
  qed
  then have "fexp x \<le> int k - 53" using x(1) by (simp add: fexp_def)
  then have "powb 2 (fexp x) \<le> powb 2 (int k - 53)" by (intro powb_mono) simp_all
  also have "powb 2 (int k - 53) = powb 2 (int k) * powb 2 (- 53)"
    using powb_add[of 2 "int k" "- 53"] by simp
  also have "\<dots> = 2 ^ k / 2 ^ 53" by (simp add: powb_def)
  finally have "powb 2 (fexp x) / 2 \<le> 2 ^ k / 2 ^ 54" by simp
  with fl_half_ulp[OF x(3)] show ?thesis by linarith
qed

text \<open>Rounding two numbers keeps them as close as they were, up to two rounding errors.\<close>

lemma fl_close:
  assumes "0 \<le> x" "x \<le> 2 ^ k" "0 \<le> y" "y \<le> 2 ^ k" "k \<le> 53" "\<bar>x - y\<bar> \<le> d"
  shows "\<bar>fl x - fl y\<bar> \<le> d + 2 ^ k / 2 ^ 53"
proof -
  have "\<bar>fl x - x\<bar> \<le> 2 ^ k / 2 ^ 54" "\<bar>fl y - y\<bar> \<le> 2 ^ k / 2 ^ 54"
    by (rule fl_abs_error[OF assms(1,2,5)], rule fl_abs_error[OF assms(3,4,5)])
  with assms(6) have "\<bar>fl x - fl y\<bar> \<le> d + 2 * (2 ^ k / 2 ^ 54)" by linarith
  then show ?thesis by simp
qed

lemma ilog_normal: assumes "1 / 64 \<le> x" shows "- 1022 \<le> ilog 2 x"
proof -
  have "ilog 2 (1 / 64) = - 6" by (rule ilog_unique) (simp_all add: powb_def)
  moreover have "ilog 2 (1 / 64) \<le> ilog 2 x" using assms by (intro ilog_mono) simp_all
  ultimately show ?thesis by simp
qed

lemma fl_error:
  assumes "1 / 64 \<le> x"
  shows "\<bar>fl x - x\<bar> \<le> x / 2 ^ 53"
proof -
  have x: "0 < x" using assms by (rule less_le_trans[rotated]) simp
  define P where "P = powb 2 (fexp x)"
  have P: "0 < P" by (simp add: P_def powb_pos)
  have "2 ^ 52 \<le> x / P" unfolding P_def by (rule scaled_lower[OF x ilog_normal[OF assms]])
  then have Px: "P * 2 ^ 52 \<le> x" using P by (simp add: field_simps)
  have "fl x = of_int (rne (x / P)) * P" using x by (simp add: fl_alt P_def)
  then have "fl x - x = (of_int (rne (x / P)) - x / P) * P" using P by (simp add: field_simps)
  then have "\<bar>fl x - x\<bar> = \<bar>of_int (rne (x / P)) - x / P\<bar> * P" using P by (simp add: abs_mult)
  also have "\<dots> \<le> 1 / 2 * P" using rne_error[of "x / P"] P by (intro mult_right_mono) simp_all
  also have "\<dots> \<le> x / 2 ^ 53" using Px by simp
  finally show ?thesis .
qed

lemma fl_between:
  assumes "1 / 64 \<le> x"
  shows "x * (1 - 1 / 2 ^ 53) \<le> fl x" "fl x \<le> x * (1 + 1 / 2 ^ 53)"
proof -
  have "fl x - x \<le> x / 2 ^ 53" "- (fl x - x) \<le> x / 2 ^ 53"
    using fl_error[OF assms] by linarith+
  then show "x * (1 - 1 / 2 ^ 53) \<le> fl x" "fl x \<le> x * (1 + 1 / 2 ^ 53)"
    by (simp_all add: algebra_simps)
qed

section \<open>Luminance\<close>

lemma constants:
  "lit (3928 / 100000) = Fin (fl (3928 / 100000))" "lit (1292 / 100) = Fin (fl (1292 / 100))"
  "lit (55 / 1000) = Fin (fl (55 / 1000))" "lit (1055 / 1000) = Fin (fl (1055 / 1000))"
  "lit (2126 / 10000) = Fin (fl (2126 / 10000))" "lit (7152 / 10000) = Fin (fl (7152 / 10000))"
  "lit (722 / 10000) = Fin (fl (722 / 10000))" "lit (5 / 100) = Fin (fl (5 / 100))"
  "lit (24 / 10) = Fin (fl (24 / 10))"
  by (simp_all add: lit_Fin)

lemma constant_values:
  "fl (1 + fl (55 / 1000)) = fl (1055 / 1000)"
  "fl (fl (fl (2126 / 10000) + fl (7152 / 10000)) + fl (722 / 10000)) = 1"
  "1 / 16 \<le> fl (fl (fl (3928 / 100000) + fl (55 / 1000)) / fl (1055 / 1000))"
  by code_simp+

lemma exponent_range: "1 \<le> fl (24 / 10)" "fl (24 / 10) \<le> 4"
proof -
  show "1 \<le> fl (24 / 10)" by (rule fl_ge_one) simp
  have "fl (24 / 10) \<le> fl 4" by (rule fl_mono) simp_all
  then show "fl (24 / 10) \<le> 4" using fl_of_int[of 4] by simp
qed

lemma Math_pow_Fin: "0 < x \<Longrightarrow> 0 < y \<Longrightarrow> Math_pow pw (Fin x) (Fin y) = js_round (pw x y)"
  by (simp add: Math_pow_def)

lemma pow_accurate_range:
  assumes "pow_accurate pw" "1 / 16 \<le> x" "x \<le> 1" "0 \<le> y" "y \<le> 4"
  shows "0 \<le> pw x y" "pw x y \<le> 1"
proof -
  from assms have a: "pw x y \<le> 1" "\<bar>pw x y - x powr y\<bar> \<le> x powr y / 2 ^ 52"
    by (simp_all add: pow_accurate_def)
  show "pw x y \<le> 1" by (rule a(1))
  have "x powr y / 2 ^ 52 \<le> x powr y" by (simp add: field_simps)
  with a(2) show "0 \<le> pw x y" by linarith
qed

lemma pow_accurate_exact: "pow_accurate exact_power"
  unfolding pow_accurate_def exact_power_def
proof (intro allI impI)
  fix x y :: real assume a: "1 / 16 \<le> x \<and> x \<le> 1 \<and> 0 \<le> y \<and> y \<le> 4"
  then have "0 \<le> x" by linarith
  with a have "x powr y \<le> 1" by (simp add: powr_le1)
  then show "x powr y \<le> 1 \<and> \<bar>x powr y - x powr y\<bar> \<le> x powr y / 2 ^ 52 \<and> (x = 1 \<longrightarrow> x powr y = 1)"
    by simp
qed

text \<open>The base of the power, for a channel above the linear part.\<close>

lemma power_base:
  assumes "0 \<le> c" "c \<le> 255" "\<not> fl (c / 255) \<le> fl (3928 / 100000)"
  shows "1 / 16 \<le> fl (fl (fl (c / 255) + fl (55 / 1000)) / fl (1055 / 1000))"
    "fl (fl (fl (c / 255) + fl (55 / 1000)) / fl (1055 / 1000)) \<le> 1"
    "0 \<le> fl (c / 255) + fl (55 / 1000)" "fl (c / 255) + fl (55 / 1000) \<le> 2 ^ 53"
    "0 \<le> fl (fl (c / 255) + fl (55 / 1000)) / fl (1055 / 1000)"
    "fl (fl (c / 255) + fl (55 / 1000)) / fl (1055 / 1000) \<le> 1"
proof -
  define v where "v = fl (c / 255)"
  have c1: "0 \<le> c / 255" "c / 255 \<le> 1" using assms by simp_all
  have v: "0 \<le> v" "v \<le> 1" using fl_unit[OF c1] by (simp_all add: v_def)
  define k0 where "k0 = fl (3928 / 100000)"
  have k0: "0 \<le> k0" unfolding k0_def by (rule fl_nonneg) simp
  define a where "a = fl (55 / 1000)"
  have a: "0 \<le> a" "a \<le> 1" using fl_unit[of "55 / 1000"] by (simp_all add: a_def)
  define d where "d = fl (1055 / 1000)"
  have d: "1 \<le> d" unfolding d_def by (rule fl_ge_one) simp
  define s where "s = fl (v + a)"
  have "v + a \<le> 1 + a" using v by simp
  then have "s \<le> fl (1 + a)" unfolding s_def using v a by (intro fl_mono) simp_all
  moreover have "fl (1 + a) = d" unfolding a_def d_def by (rule constant_values(1))
  ultimately have s: "0 \<le> s" "s \<le> d" using v a fl_nonneg[of "v + a"]
    by (simp_all add: s_def)
  have q: "0 \<le> s / d" "s / d \<le> 1" using s d by (simp_all add: divide_le_eq)
  have "k0 + a \<le> v + a" using assms(3) by (simp add: v_def k0_def)
  then have "fl (k0 + a) \<le> s" unfolding s_def using k0 a by (intro fl_mono) simp_all
  then have "fl (k0 + a) / d \<le> s / d" using d by (simp add: divide_right_mono)
  moreover have "0 \<le> fl (k0 + a) / d" using d fl_nonneg[of "k0 + a"] k0 a by simp
  ultimately have "fl (fl (k0 + a) / d) \<le> fl (s / d)" by (intro fl_mono)
  moreover have "1 / 16 \<le> fl (fl (k0 + a) / d)"
    unfolding k0_def a_def d_def by (rule constant_values(3))
  ultimately have "1 / 16 \<le> fl (s / d)" by (rule order_trans[rotated])
  then show "1 / 16 \<le> fl (fl (fl (c / 255) + fl (55 / 1000)) / fl (1055 / 1000))"
    by (simp only: s_def v_def a_def d_def)
  show "fl (fl (fl (c / 255) + fl (55 / 1000)) / fl (1055 / 1000)) \<le> 1"
    using fl_unit[OF q] by (simp only: s_def v_def a_def d_def)
  show "0 \<le> fl (c / 255) + fl (55 / 1000)" "fl (c / 255) + fl (55 / 1000) \<le> 2 ^ 53"
    using v a by (simp_all only: v_def a_def) simp_all
  show "0 \<le> fl (fl (c / 255) + fl (55 / 1000)) / fl (1055 / 1000)"
    "fl (fl (c / 255) + fl (55 / 1000)) / fl (1055 / 1000) \<le> 1"
    using q by (simp_all only: s_def v_def a_def d_def)
qed

lemma srgb_linear_power:
  "\<not> fl (c / 255) \<le> fl (3928 / 100000) \<Longrightarrow>
   srgb_linear pw c = fl (pw (fl (fl (fl (c / 255) + fl (55 / 1000)) / fl (1055 / 1000))) (fl (24 / 10)))"
  unfolding srgb_linear_def Let_def by (simp only: if_False)

lemma srgb_linear_small:
  "fl (c / 255) \<le> fl (3928 / 100000) \<Longrightarrow> srgb_linear pw c = fl (fl (c / 255) / fl (1292 / 100))"
  by (simp add: srgb_linear_def Let_def)

lemma srgb_linear_range:
  assumes "0 \<le> c" "c \<le> 255" "pow_accurate pw"
  shows "0 \<le> srgb_linear pw c" "srgb_linear pw c \<le> 1"
proof -
  have "0 \<le> srgb_linear pw c \<and> srgb_linear pw c \<le> 1"
  proof (cases "fl (c / 255) \<le> fl (3928 / 100000)")
    case True
    have c1: "0 \<le> c / 255" "c / 255 \<le> 1" using assms by simp_all
    have k: "1 \<le> fl (1292 / 100)" by (rule fl_ge_one) simp
    have "0 \<le> fl (c / 255) / fl (1292 / 100)" "fl (c / 255) / fl (1292 / 100) \<le> 1"
      using fl_unit[OF c1] k by (simp_all add: divide_le_eq)
    then show ?thesis unfolding srgb_linear_small[OF True] by (rule fl_unit)
  next
    case False
    note pb = power_base[OF assms(1,2) False]
    have E: "0 \<le> fl (24 / 10)" using exponent_range(1) by linarith
    note r = pow_accurate_range[OF assms(3) pb(1,2) E exponent_range(2)]
    show ?thesis unfolding srgb_linear_power[OF False] using r by (rule fl_unit)
  qed
  then show "0 \<le> srgb_linear pw c" "srgb_linear pw c \<le> 1" by simp_all
qed

lemma linearize_Fin:
  assumes "0 \<le> c" "c \<le> 255" and pw: "pow_accurate pw"
  shows "linearize pw (Fin c) = Fin (srgb_linear pw c)" "0 \<le> srgb_linear pw c" "srgb_linear pw c \<le> 1"
proof -
  define v where "v = fl (c / 255)"
  have c1: "0 \<le> c / 255" "c / 255 \<le> 1" using assms by simp_all
  have v: "0 \<le> v" "v \<le> 1" using fl_unit[OF c1] by (simp_all add: v_def)
  have "js_div (Fin c) (Fin 255) = js_round (c / 255)" by simp
  then have dv: "js_div (Fin c) (Fin 255) = Fin v" by (simp only: js_round_unit[OF c1] v_def)
  define k where "k = fl (1292 / 100)"
  have k: "1 \<le> k" unfolding k_def by (rule fl_ge_one) simp
  define k0 where "k0 = fl (3928 / 100000)"
  have k0: "0 \<le> k0" unfolding k0_def by (rule fl_nonneg) simp
  define a where "a = fl (55 / 1000)"
  have a: "0 \<le> a" "a \<le> 1" using fl_unit[of "55 / 1000"] by (simp_all add: a_def)
  define d where "d = fl (1055 / 1000)"
  have d: "1 \<le> d" unfolding d_def by (rule fl_ge_one) simp
  define E where "E = fl (24 / 10)"
  have E: "1 \<le> E" "E \<le> 4" unfolding E_def by (rule exponent_range)+
  define s where "s = fl (v + a)"
  have "v + a \<le> 1 + a" using v by simp
  then have "s \<le> fl (1 + a)" unfolding s_def using v a by (intro fl_mono) simp_all
  moreover have "fl (1 + a) = d" unfolding a_def d_def by (rule constant_values(1))
  ultimately have s: "0 \<le> s" "s \<le> d" using v a fl_nonneg[of "v + a"]
    by (simp_all add: s_def)
  have lin: "js_div (Fin v) (Fin k) = Fin (fl (v / k))" "0 \<le> fl (v / k)" "fl (v / k) \<le> 1"
  proof -
    have q: "0 \<le> v / k" "v / k \<le> 1" using v k by (simp_all add: divide_le_eq)
    have "js_div (Fin v) (Fin k) = js_round (v / k)" using k by simp
    then show "js_div (Fin v) (Fin k) = Fin (fl (v / k))" by (simp only: js_round_unit[OF q])
    from fl_unit[OF q] show "0 \<le> fl (v / k)" "fl (v / k) \<le> 1" by simp_all
  qed
  have sa: "js_add (Fin v) (Fin a) = Fin s" using v a by (simp add: s_def js_round_Fin)
  have q: "0 \<le> s / d" "s / d \<le> 1" using s d by (simp_all add: divide_le_eq)
  have "js_div (Fin s) (Fin d) = js_round (s / d)" using d by simp
  then have sd: "js_div (Fin s) (Fin d) = Fin (fl (s / d))" by (simp only: js_round_unit[OF q])
  define base where "base = fl (s / d)"
  have base1: "base \<le> 1" using fl_unit[OF q] by (simp add: base_def)
  have power: "Math_pow pw (Fin base) (Fin E) = Fin (fl (pw base E))"
      "0 \<le> fl (pw base E)" "fl (pw base E) \<le> 1"
    if "\<not> v \<le> k0"
  proof -
    have "k0 + a \<le> v + a" using that by simp
    then have "fl (k0 + a) \<le> s" unfolding s_def using k0 a by (intro fl_mono) simp_all
    then have "fl (k0 + a) / d \<le> s / d" using d by (simp add: divide_right_mono)
    moreover have "0 \<le> fl (k0 + a) / d" using d fl_nonneg[of "k0 + a"] k0 a by simp
    ultimately have "fl (fl (k0 + a) / d) \<le> base" unfolding base_def by (intro fl_mono)
    moreover have "1 / 16 \<le> fl (fl (k0 + a) / d)"
      unfolding k0_def a_def d_def by (rule constant_values(3))
    ultimately have base16: "1 / 16 \<le> base" by (rule order_trans[rotated])
    then have base0: "0 < base" by (rule less_le_trans[rotated]) simp
    have E0: "0 \<le> E" "0 < E" using E by simp_all
    note r = pow_accurate_range[OF pw base16 base1 E0(1) E(2)]
    have "Math_pow pw (Fin base) (Fin E) = js_round (pw base E)"
      using base0 E0(2) by (rule Math_pow_Fin)
    then show "Math_pow pw (Fin base) (Fin E) = Fin (fl (pw base E))"
      by (simp only: js_round_unit[OF r])
    from fl_unit[OF r] show "0 \<le> fl (pw base E)" "fl (pw base E) \<le> 1" by simp_all
  qed
  have eq: "srgb_linear pw c = (if v \<le> k0 then fl (v / k) else fl (pw base E))"
    unfolding srgb_linear_def v_def k0_def k_def base_def s_def a_def d_def E_def
    by (simp only: Let_def)
  have "linearize pw (Fin c) =
        (if js_le (Fin v) (Fin k0) then js_div (Fin v) (Fin k)
         else Math_pow pw (js_div (js_add (Fin v) (Fin a)) (Fin d)) (Fin E))"
    unfolding linearize_def dv constants k_def k0_def a_def d_def E_def by (simp only: Let_def)
  then have "linearize pw (Fin c) =
        (if v \<le> k0 then Fin (fl (v / k)) else Math_pow pw (Fin base) (Fin E))"
    by (simp only: lin(1) sa sd js_le.simps base_def)
  then show "linearize pw (Fin c) = Fin (srgb_linear pw c)"
    using power(1) by (simp add: eq)
  show "0 \<le> srgb_linear pw c" "srgb_linear pw c \<le> 1"
    using lin(2,3) power(2,3) by (simp_all add: eq)
qed

lemma luminanace_Fin:
  assumes "0 \<le> cr" "cr \<le> 255" "0 \<le> cg" "cg \<le> 255" "0 \<le> cb" "cb \<le> 255"
    and pw: "pow_accurate pw"
  shows "luminanace pw (Fin cr) (Fin cg) (Fin cb) = Fin (relative_luminance pw cr cg cb)"
    "0 \<le> relative_luminance pw cr cg cb" "relative_luminance pw cr cg cb \<le> 1"
proof -
  define a0 a1 a2 where "a0 = srgb_linear pw cr" and "a1 = srgb_linear pw cg" and "a2 = srgb_linear pw cb"
  note l0 = linearize_Fin[OF assms(1,2) pw, folded a0_def]
    and l1 = linearize_Fin[OF assms(3,4) pw, folded a1_def]
    and l2 = linearize_Fin[OF assms(5,6) pw, folded a2_def]
  define w0 w1 w2 where "w0 = fl (2126 / 10000)" and "w1 = fl (7152 / 10000)" and "w2 = fl (722 / 10000)"
  have w: "0 \<le> w0" "w0 \<le> 1" "0 \<le> w1" "w1 \<le> 1" "0 \<le> w2" "w2 \<le> 1"
    using fl_unit[of "2126 / 10000"] fl_unit[of "7152 / 10000"] fl_unit[of "722 / 10000"]
    by (simp_all add: w0_def w1_def w2_def)
  define t0 t1 t2 where "t0 = fl (a0 * w0)" and "t1 = fl (a1 * w1)" and "t2 = fl (a2 * w2)"
  have p0: "0 \<le> a0 * w0" "a0 * w0 \<le> w0" using l0 w by (simp_all add: mult_left_le_one_le)
  have p1: "0 \<le> a1 * w1" "a1 * w1 \<le> w1" using l1 w by (simp_all add: mult_left_le_one_le)
  have p2: "0 \<le> a2 * w2" "a2 * w2 \<le> w2" using l2 w by (simp_all add: mult_left_le_one_le)
  have t: "0 \<le> t0" "t0 \<le> fl w0" "0 \<le> t1" "t1 \<le> fl w1" "0 \<le> t2" "t2 \<le> fl w2"
    using p0 p1 p2 by (simp_all add: t0_def t1_def t2_def fl_nonneg fl_mono)
  have fw: "fl w0 \<le> 1" "fl w1 \<le> 1" "fl w2 \<le> 1" using w fl_unit by simp_all
  define u where "u = fl (t0 + t1)"
  have u: "0 \<le> u" "u \<le> fl (fl w0 + fl w1)" using t by (simp_all add: u_def fl_nonneg fl_mono)
  have "fl w0 + fl w1 \<le> 2" using fw by simp
  then have "fl (fl w0 + fl w1) \<le> 2" using fl_mono[of "fl w0 + fl w1" 2] fl_of_int[of 2] t by simp
  then have u2: "u \<le> 2" using u by simp
  have m: "js_mul (Fin a0) (Fin w0) = Fin t0" "js_mul (Fin a1) (Fin w1) = Fin t1"
      "js_mul (Fin a2) (Fin w2) = Fin t2"
    using p0 p1 p2 w by (simp_all add: t0_def t1_def t2_def js_round_Fin)
  have s1: "js_add (Fin t0) (Fin t1) = Fin u" using t fw by (simp add: u_def js_round_Fin)
  have s2: "js_add (Fin u) (Fin t2) = Fin (fl (u + t2))" using u u2 t fw by (simp add: js_round_Fin)
  have rl: "relative_luminance pw cr cg cb = fl (u + t2)"
    by (simp add: relative_luminance_def u_def t0_def t1_def t2_def a0_def a1_def a2_def w0_def w1_def w2_def)
  have "luminanace pw (Fin cr) (Fin cg) (Fin cb) =
        js_add (js_add (js_mul (Fin a0) (Fin w0)) (js_mul (Fin a1) (Fin w1))) (js_mul (Fin a2) (Fin w2))"
    unfolding luminanace_def constants w0_def w1_def w2_def
    by (simp add: Let_def l0(1) l1(1) l2(1) del: js_add.simps js_mul.simps)
  then show "luminanace pw (Fin cr) (Fin cg) (Fin cb) = Fin (relative_luminance pw cr cg cb)"
    by (simp only: m s1 s2 rl)
  show "0 \<le> relative_luminance pw cr cg cb" using u t by (simp add: rl fl_nonneg)
  have "u + t2 \<le> fl (fl w0 + fl w1) + fl w2" using u t by simp
  then have "fl (u + t2) \<le> fl (fl (fl w0 + fl w1) + fl w2)" using u t by (intro fl_mono) simp_all
  also have "\<dots> = 1" unfolding w0_def w1_def w2_def by code_simp
  finally show "relative_luminance pw cr cg cb \<le> 1" by (simp add: rl)
qed

text \<open>A channel made linear with an accurate power is within \<open>3 / 2^53\<close> of the channel made
  linear with the exact power.\<close>

lemma srgb_linear_close:
  assumes "0 \<le> c" "c \<le> 255" "pow_accurate pw"
  shows "\<bar>srgb_linear pw c - srgb_linear exact_power c\<bar> \<le> 3 / 2 ^ 53"
proof (cases "fl (c / 255) \<le> fl (3928 / 100000)")
  case True
  then show ?thesis by (simp add: srgb_linear_small)
next
  case False
  define base where "base = fl (fl (fl (c / 255) + fl (55 / 1000)) / fl (1055 / 1000))"
  define E where "E = fl (24 / 10)"
  note pb = power_base[OF assms(1,2) False, folded base_def]
  have E: "0 \<le> E" "E \<le> 4" using exponent_range by (simp_all add: E_def)
  note r = pow_accurate_range[OF assms(3) pb(1,2) E]
  note r' = pow_accurate_range[OF pow_accurate_exact pb(1,2) E]
  have "\<bar>pw base E - base powr E\<bar> \<le> base powr E / 2 ^ 52"
    using assms(3) pb(1,2) E by (simp add: pow_accurate_def)
  moreover have "base powr E / 2 ^ 52 \<le> 1 / 2 ^ 52"
    using r'(2) by (simp add: exact_power_def divide_right_mono)
  ultimately have d: "\<bar>pw base E - exact_power base E\<bar> \<le> 1 / 2 ^ 52"
    by (simp add: exact_power_def)
  have "\<bar>fl (pw base E) - fl (exact_power base E)\<bar> \<le> 1 / 2 ^ 52 + 2 ^ 0 / 2 ^ 53"
    using r r' d by (intro fl_close) simp_all
  then show ?thesis
    unfolding srgb_linear_power[OF False] base_def[symmetric] E_def[symmetric] by simp
qed

text \<open>The luminance with an accurate power is within \<open>2^-48\<close> of the luminance with the
  exact power.\<close>

lemma relative_luminance_close:
  assumes "0 \<le> cr" "cr \<le> 255" "0 \<le> cg" "cg \<le> 255" "0 \<le> cb" "cb \<le> 255"
    and pw: "pow_accurate pw"
  shows "\<bar>relative_luminance pw cr cg cb - relative_luminance exact_power cr cg cb\<bar> \<le> 1 / 2 ^ 48"
proof -
  have prod: "0 \<le> fl (srgb_linear pw c * w)" "fl (srgb_linear pw c * w) \<le> 1"
      "0 \<le> fl (srgb_linear exact_power c * w)" "fl (srgb_linear exact_power c * w) \<le> 1"
      "\<bar>fl (srgb_linear pw c * w) - fl (srgb_linear exact_power c * w)\<bar> \<le> 1 / 2 ^ 51"
    if c: "0 \<le> c" "c \<le> 255" and w: "0 \<le> w" "w \<le> 1" for c w
  proof -
    define a a' where "a = srgb_linear pw c" and "a' = srgb_linear exact_power c"
    note ra = srgb_linear_range[OF c pw, folded a_def]
      and ra' = srgb_linear_range[OF c pow_accurate_exact, folded a'_def]
    have x: "0 \<le> a * w" "a * w \<le> 1" "0 \<le> a' * w" "a' * w \<le> 1"
      using ra ra' w by (simp_all add: mult_le_one)
    from fl_unit[OF x(1,2)] fl_unit[OF x(3,4)]
    show "0 \<le> fl (a * w)" "fl (a * w) \<le> 1" "0 \<le> fl (a' * w)" "fl (a' * w) \<le> 1" by simp_all
    have "\<bar>a * w - a' * w\<bar> = \<bar>a - a'\<bar> * w" using w by (simp add: abs_mult flip: left_diff_distrib)
    also have "\<dots> \<le> \<bar>a - a'\<bar> * 1" using w by (intro mult_left_mono) simp_all
    also have "\<dots> \<le> 3 / 2 ^ 53" using srgb_linear_close[OF c pw] by (simp add: a_def a'_def)
    finally have "\<bar>a * w - a' * w\<bar> \<le> 3 / 2 ^ 53" .
    then have "\<bar>fl (a * w) - fl (a' * w)\<bar> \<le> 3 / 2 ^ 53 + 2 ^ 0 / 2 ^ 53"
      using x by (intro fl_close) simp_all
    then show "\<bar>fl (a * w) - fl (a' * w)\<bar> \<le> 1 / 2 ^ 51" by simp
  qed
  define w0 w1 w2 where "w0 = fl (2126 / 10000)" and "w1 = fl (7152 / 10000)" and "w2 = fl (722 / 10000)"
  have w: "0 \<le> w0" "w0 \<le> 1" "0 \<le> w1" "w1 \<le> 1" "0 \<le> w2" "w2 \<le> 1"
    using fl_unit[of "2126 / 10000"] fl_unit[of "7152 / 10000"] fl_unit[of "722 / 10000"]
    by (simp_all add: w0_def w1_def w2_def)
  define t0 t1 t2 where "t0 = fl (srgb_linear pw cr * w0)" and "t1 = fl (srgb_linear pw cg * w1)"
    and "t2 = fl (srgb_linear pw cb * w2)"
  define t0' t1' t2' where "t0' = fl (srgb_linear exact_power cr * w0)"
    and "t1' = fl (srgb_linear exact_power cg * w1)" and "t2' = fl (srgb_linear exact_power cb * w2)"
  note T0 = prod[OF assms(1,2) w(1,2), folded t0_def t0'_def]
    and T1 = prod[OF assms(3,4) w(3,4), folded t1_def t1'_def]
    and T2 = prod[OF assms(5,6) w(5,6), folded t2_def t2'_def]
  have s: "0 \<le> t0 + t1" "t0 + t1 \<le> 2 ^ 1" "0 \<le> t0' + t1'" "t0' + t1' \<le> 2 ^ 1"
    using T0 T1 by simp_all
  have "\<bar>(t0 + t1) - (t0' + t1')\<bar> \<le> \<bar>t0 - t0'\<bar> + \<bar>t1 - t1'\<bar>" by linarith
  also have "\<dots> \<le> 1 / 2 ^ 51 + 1 / 2 ^ 51" using T0(5) T1(5) by (rule add_mono)
  also have "\<dots> = 1 / 2 ^ 50" by simp
  finally have "\<bar>(t0 + t1) - (t0' + t1')\<bar> \<le> 1 / 2 ^ 50" .
  then have "\<bar>fl (t0 + t1) - fl (t0' + t1')\<bar> \<le> 1 / 2 ^ 50 + 2 ^ 1 / 2 ^ 53"
    using s by (intro fl_close) simp_all
  then have u: "\<bar>fl (t0 + t1) - fl (t0' + t1')\<bar> \<le> 5 / 2 ^ 52" by simp
  have "fl (t0 + t1) \<le> fl 2" "fl (t0' + t1') \<le> fl 2" using s by (simp_all add: fl_mono)
  then have u2: "fl (t0 + t1) \<le> 2" "fl (t0' + t1') \<le> 2" using fl_of_int[of 2] by simp_all
  have u0: "0 \<le> fl (t0 + t1)" "0 \<le> fl (t0' + t1')" using s by (simp_all add: fl_nonneg)
  have z: "0 \<le> fl (t0 + t1) + t2" "fl (t0 + t1) + t2 \<le> 2 ^ 2"
      "0 \<le> fl (t0' + t1') + t2'" "fl (t0' + t1') + t2' \<le> 2 ^ 2"
    using u0 u2 T2 by simp_all
  have "\<bar>(fl (t0 + t1) + t2) - (fl (t0' + t1') + t2')\<bar>
          \<le> \<bar>fl (t0 + t1) - fl (t0' + t1')\<bar> + \<bar>t2 - t2'\<bar>" by linarith
  also have "\<dots> \<le> 5 / 2 ^ 52 + 1 / 2 ^ 51" using u T2(5) by (rule add_mono)
  also have "\<dots> = 7 / 2 ^ 52" by simp
  finally have "\<bar>(fl (t0 + t1) + t2) - (fl (t0' + t1') + t2')\<bar> \<le> 7 / 2 ^ 52" .
  then have "\<bar>fl (fl (t0 + t1) + t2) - fl (fl (t0' + t1') + t2')\<bar> \<le> 7 / 2 ^ 52 + 2 ^ 2 / 2 ^ 53"
    using z by (intro fl_close) simp_all
  then have "\<bar>fl (fl (t0 + t1) + t2) - fl (fl (t0' + t1') + t2')\<bar> \<le> 1 / 2 ^ 48" by simp
  then show ?thesis
    unfolding relative_luminance_def t0_def t1_def t2_def t0'_def t1'_def t2'_def w0_def w1_def w2_def .
qed

section \<open>Contrast\<close>

text \<open>The contrast of two luminances that have the constant added: \<open>p / q\<close>, inverted when
  it is less than 1. In either order it is the larger over the smaller, up to the rounding.\<close>

lemma ratio_direct:
  fixes p q :: real
  assumes "1 / 32 \<le> q" "q \<le> p" "p \<le> 2"
  shows "p / q * (1 - 1 / 2 ^ 53) \<le> (if fl (p / q) < 1 then fl (1 / fl (p / q)) else fl (p / q))"
    and "(if fl (p / q) < 1 then fl (1 / fl (p / q)) else fl (p / q)) \<le> p / q * (1 + 1 / 2 ^ 53)"
proof -
  have q: "0 < q" using assms(1) by (rule less_le_trans[rotated]) simp
  have r: "1 \<le> p / q" using assms q by simp
  then have "1 \<le> fl (p / q)" by (rule fl_ge_one)
  then have c: "\<not> fl (p / q) < 1" by simp
  have "1 / 64 \<le> p / q" using r by linarith
  note b = fl_between[OF this]
  show "p / q * (1 - 1 / 2 ^ 53) \<le> (if fl (p / q) < 1 then fl (1 / fl (p / q)) else fl (p / q))"
    using c b(1) by (simp only: if_False)
  show "(if fl (p / q) < 1 then fl (1 / fl (p / q)) else fl (p / q)) \<le> p / q * (1 + 1 / 2 ^ 53)"
    using c b(2) by (simp only: if_False)
qed

lemma ratio_inverse:
  fixes p q :: real
  assumes "1 / 32 \<le> q" "q \<le> p" "p \<le> 2"
  shows "p / q * ((1 - 1 / 2 ^ 53) / (1 + 1 / 2 ^ 53))
           \<le> (if fl (q / p) < 1 then fl (1 / fl (q / p)) else fl (q / p))"
    and "(if fl (q / p) < 1 then fl (1 / fl (q / p)) else fl (q / p))
           \<le> p / q * ((1 + 1 / 2 ^ 53) / (1 - 1 / 2 ^ 53))"
proof -
  define U :: real where "U = 1 / 2 ^ 53"
  have U: "0 < U" "U < 1" "0 < 1 - U" "0 < 1 + U" by (simp_all add: U_def)
  have q: "0 < q" using assms(1) by (rule less_le_trans[rotated]) simp
  have p: "0 < p" using q assms by simp
  define t where "t = q / p"
  define rho where "rho = p / q"
  have rho: "1 \<le> rho" "0 < rho" using assms p q by (simp_all add: rho_def)
  have rt: "1 / t = rho" by (simp add: rho_def t_def)
  have t: "0 < t" "t \<le> 1" using assms p q by (simp_all add: t_def)
  have "q / p \<ge> (1 / 32) / 2" using assms p by (intro frac_le) simp_all
  then have t64: "1 / 64 \<le> t" by (simp add: t_def)
  define c where "c = fl t"
  have cb: "t * (1 - U) \<le> c" "c \<le> t * (1 + U)"
    using fl_between[OF t64] by (simp_all only: c_def U_def)
  have c1: "c \<le> 1" using fl_mono[of t 1] t by (simp add: c_def fl_numeral)
  have "0 < t * (1 - U)" using t U by (intro mult_pos_pos)
  then have c0: "0 < c" using cb(1) by (rule less_le_trans)
  have tU: "0 < t * (1 + U)" using t U by (intro mult_pos_pos)
  have e1: "1 / (t * (1 + U)) = rho / (1 + U)" "1 / (t * (1 - U)) = rho / (1 - U)"
    unfolding rt[symmetric] by simp_all
  have res: "rho * ((1 - U) / (1 + U)) \<le> (if c < 1 then fl (1 / c) else c)
             \<and> (if c < 1 then fl (1 / c) else c) \<le> rho * ((1 + U) / (1 - U))"
  proof (cases "c < 1")
    case True
    have "1 \<le> 1 / c" using c0 True by simp
    then have i64: "1 / 64 \<le> 1 / c" by simp
    have ib: "1 / c * (1 - U) \<le> fl (1 / c)" "fl (1 / c) \<le> 1 / c * (1 + U)"
      using fl_between[OF i64] by (simp_all only: U_def)
    have "1 / (t * (1 + U)) \<le> 1 / c" using cb(2) c0 by (intro frac_le) simp_all
    then have l: "rho / (1 + U) \<le> 1 / c" by (simp only: e1)
    have "1 / c \<le> 1 / (t * (1 - U))" using cb(1) \<open>0 < t * (1 - U)\<close> by (intro frac_le) simp_all
    then have h: "1 / c \<le> rho / (1 - U)" by (simp only: e1)
    have "rho * ((1 - U) / (1 + U)) = rho / (1 + U) * (1 - U)" by simp
    also have "\<dots> \<le> 1 / c * (1 - U)" using l U(3) by (intro mult_right_mono) simp_all
    also have "\<dots> \<le> fl (1 / c)" by (rule ib(1))
    finally have A: "rho * ((1 - U) / (1 + U)) \<le> fl (1 / c)" .
    have "fl (1 / c) \<le> 1 / c * (1 + U)" by (rule ib(2))
    also have "\<dots> \<le> rho / (1 - U) * (1 + U)" using h U(4) by (intro mult_right_mono) simp_all
    also have "\<dots> = rho * ((1 + U) / (1 - U))" by simp
    finally have B: "fl (1 / c) \<le> rho * ((1 + U) / (1 - U))" .
    from A B True show ?thesis by (simp only: if_True simp_thms)
  next
    case False
    then have ceq: "c = 1" using c1 by simp
    have "1 \<le> t * (1 + U)" using cb(2) ceq by simp
    then have "1 / (t * (1 + U)) \<le> 1 / 1" by (intro frac_le) simp_all
    then have "rho / (1 + U) \<le> 1" by (simp only: e1 div_by_1)
    then have "rho / (1 + U) * (1 - U) \<le> 1 * (1 - U)" using U(3) by (intro mult_right_mono) simp_all
    then have "rho * ((1 - U) / (1 + U)) \<le> 1 - U" by simp
    then have A: "rho * ((1 - U) / (1 + U)) \<le> 1" using U(1) by linarith
    have "t * (1 - U) \<le> 1" using cb(1) ceq by simp
    then have "1 / 1 \<le> 1 / (t * (1 - U))" using \<open>0 < t * (1 - U)\<close> by (intro frac_le) simp_all
    then have "1 \<le> rho / (1 - U)" by (simp only: e1 div_by_1)
    then have "1 * (1 + U) \<le> rho / (1 - U) * (1 + U)" using U(4) by (intro mult_right_mono) simp_all
    then have "1 + U \<le> rho * ((1 + U) / (1 - U))" by simp
    then have B: "1 \<le> rho * ((1 + U) / (1 - U))" using U(1) by linarith
    from A B False ceq show ?thesis by (simp only: if_False simp_thms)
  qed
  show "p / q * ((1 - 1 / 2 ^ 53) / (1 + 1 / 2 ^ 53))
           \<le> (if fl (q / p) < 1 then fl (1 / fl (q / p)) else fl (q / p))"
    using res unfolding c_def t_def rho_def U_def by (rule conjunct1)
  show "(if fl (q / p) < 1 then fl (1 / fl (q / p)) else fl (q / p))
           \<le> p / q * ((1 + 1 / 2 ^ 53) / (1 - 1 / 2 ^ 53))"
    using res unfolding c_def t_def rho_def U_def by (rule conjunct2)
qed

text \<open>Both orders lie between the same two bounds.\<close>

lemma ratio_orders:
  fixes p q :: real
  assumes "1 / 32 \<le> p" "p \<le> 2" "1 / 32 \<le> q" "q \<le> 2"
  defines "x \<equiv> (if fl (p / q) < 1 then fl (1 / fl (p / q)) else fl (p / q))"
    and "y \<equiv> (if fl (q / p) < 1 then fl (1 / fl (q / p)) else fl (q / p))"
  shows "\<bar>x - y\<bar> \<le> x / 2 ^ 50"
proof -
  note xe = x_def[THEN meta_eq_to_obj_eq] and ye = y_def[THEN meta_eq_to_obj_eq]
  define a b :: real where "a = 1 - 1 / 2 ^ 53" and "b = 1 + 1 / 2 ^ 53"
  define l h :: real where "l = a / b" and "h = b / a"
  have lh: "0 < l" "h - l \<le> l / 2 ^ 50" "l \<le> a" "b \<le> h"
    by (simp_all add: l_def h_def a_def b_def)
  have bounds: "\<exists>rho. 0 < rho \<and> rho * l \<le> u \<and> u \<le> rho * h \<and> rho * l \<le> v \<and> v \<le> rho * h"
    if "1 / 32 \<le> q'" "q' \<le> p'" "p' \<le> 2"
      and u: "u = (if fl (p' / q') < 1 then fl (1 / fl (p' / q')) else fl (p' / q'))"
      and v: "v = (if fl (q' / p') < 1 then fl (1 / fl (q' / p')) else fl (q' / p'))"
    for p' q' u v :: real
  proof -
    have q': "0 < q'" using that(1) by (rule less_le_trans[rotated]) simp
    then have rp: "0 < p' / q'" using that(2) by simp
    note d = ratio_direct[OF that(1-3), folded a_def b_def u]
      and i = ratio_inverse[OF that(1-3), folded a_def b_def, folded l_def h_def v]
    have "p' / q' * l \<le> p' / q' * a" using rp lh(3) by (intro mult_left_mono) simp_all
    then have 1: "p' / q' * l \<le> u" using d(1) by (rule order_trans)
    have "p' / q' * b \<le> p' / q' * h" using rp lh(4) by (intro mult_left_mono) simp_all
    with d(2) have 2: "u \<le> p' / q' * h" by (rule order_trans)
    from rp 1 2 i show ?thesis by blast
  qed
  have "\<exists>rho. 0 < rho \<and> rho * l \<le> x \<and> x \<le> rho * h \<and> rho * l \<le> y \<and> y \<le> rho * h"
  proof (cases "q \<le> p")
    case True
    from bounds[OF assms(3) True assms(2) xe ye] show ?thesis .
  next
    case False
    then have le: "p \<le> q" by simp
    from bounds[OF assms(1) le assms(4) ye xe] show ?thesis by blast
  qed
  then obtain rho where rho: "0 < rho" "rho * l \<le> x" "x \<le> rho * h" "rho * l \<le> y" "y \<le> rho * h"
    by blast
  have "\<bar>x - y\<bar> \<le> rho * h - rho * l" using rho by linarith
  also have "\<dots> = rho * (h - l)" by (simp add: algebra_simps)
  also have "\<dots> \<le> rho * (l / 2 ^ 50)" using rho(1) lh(2) by (intro mult_left_mono) simp_all
  also have "\<dots> = rho * l / 2 ^ 50" by simp
  also have "\<dots> \<le> x / 2 ^ 50" using rho(2) by (simp add: divide_right_mono)
  finally show ?thesis .
qed

lemma contrast_constants:
  "1 / 32 \<le> fl (fl (5 / 100))"
  "fl (fl (1 + fl (5 / 100)) / fl (fl (5 / 100))) = 21"
  "1 / 64 \<le> fl (fl (fl (5 / 100)) / fl (1 + fl (5 / 100)))"
  "fl (1 / fl (fl (fl (5 / 100)) / fl (1 + fl (5 / 100)))) = 21"
  by code_simp+

lemma contrast_Fin:
  assumes "0 \<le> L1" "L1 \<le> 1" "0 \<le> L2" "L2 \<le> 1"
  shows "(let c = js_div (js_add (Fin L1) (lit (5 / 100))) (js_add (Fin L2) (lit (5 / 100)))
          in if js_lt c (Fin 1) then js_div (Fin 1) c else c) = Fin (contrast_ratio L1 L2)"
    "1 \<le> contrast_ratio L1 L2" "contrast_ratio L1 L2 \<le> 21"
proof -
  define K where "K = fl (5 / 100)"
  define A where "A = fl K"
  define B where "B = fl (1 + K)"
  have K: "0 \<le> K" "K \<le> 1" using fl_unit[of "5 / 100"] by (simp_all add: K_def)
  have A: "1 / 32 \<le> A" unfolding A_def K_def by (rule contrast_constants(1))
  have B: "B \<le> 2" using fl_mono[of "1 + K" 2] fl_of_int[of 2] K by (simp add: B_def)
  have AB: "fl (B / A) = 21" "1 / 64 \<le> fl (A / B)" "fl (1 / fl (A / B)) = 21"
    unfolding A_def B_def K_def by (rule contrast_constants)+
  have A0: "0 < A" using A by (rule less_le_trans[rotated]) simp
  have sum: "js_add (Fin L) (lit (5 / 100)) = Fin (fl (L + K))" "A \<le> fl (L + K)" "fl (L + K) \<le> B"
    if "0 \<le> L" "L \<le> 1" for L
  proof -
    have "js_add (Fin L) (Fin K) = js_round (L + K)" by simp
    moreover have "js_round (L + K) = Fin (fl (L + K))" using that K by (intro js_round_Fin) simp_all
    ultimately show "js_add (Fin L) (lit (5 / 100)) = Fin (fl (L + K))"
      by (simp only: constants K_def)
    show "A \<le> fl (L + K)" unfolding A_def using that K by (intro fl_mono) simp_all
    show "fl (L + K) \<le> B" unfolding B_def using that K by (intro fl_mono) simp_all
  qed
  define u v where "u = fl (L1 + K)" and "v = fl (L2 + K)"
  note su = sum[OF assms(1,2), folded u_def] and sv = sum[OF assms(3,4), folded v_def]
  have u0: "0 < u" and v0: "0 < v" using su sv A0 by simp_all
  have B0: "0 < B" using su u0 by simp
  define c where "c = fl (u / v)"
  have q: "0 \<le> u / v" "u / v \<le> B / A" "A / B \<le> u / v"
    using u0 v0 su sv A0 B0 by (simp_all add: frac_le)
  have "B / A \<le> 2 / (1 / 32)" using A B A0 by (intro frac_le) simp_all
  then have uv: "u / v \<le> 2 ^ 53" using q by simp
  have dv: "js_div (Fin u) (Fin v) = Fin c"
  proof -
    have "js_div (Fin u) (Fin v) = js_round (u / v)" using v0 by simp
    also have "\<dots> = Fin (fl (u / v))" using q(1) uv by (rule js_round_Fin)
    finally show ?thesis by (simp add: c_def)
  qed
  have "0 \<le> A / B" using A0 B0 by simp
  then have c: "1 / 64 \<le> c" "c \<le> 21"
    using fl_mono[of "A / B" "u / v"] fl_mono[of "u / v" "B / A"] q AB by (simp_all add: c_def)
  have c0: "0 < c" using c(1) by (rule less_le_trans[rotated]) simp
  define i where "i = fl (1 / c)"
  have inv: "js_div (Fin 1) (Fin c) = Fin i" "1 \<le> i" "i \<le> 21" if "c < 1"
  proof -
    have r: "0 \<le> 1 / c" "1 \<le> 1 / c" using c0 that by simp_all
    have "1 / c \<le> 1 / (1 / 64)" using c(1) by (intro frac_le) simp_all
    then have r2: "1 / c \<le> 2 ^ 53" by simp
    have "js_div (Fin 1) (Fin c) = js_round (1 / c)" using c0 by simp
    also have "\<dots> = Fin (fl (1 / c))" using r(1) r2 by (rule js_round_Fin)
    finally show "js_div (Fin 1) (Fin c) = Fin i" by (simp add: i_def)
    show "1 \<le> i" unfolding i_def using r(2) by (rule fl_ge_one)
    have "fl (A / B) \<le> c" unfolding c_def using q \<open>0 \<le> A / B\<close> by (intro fl_mono) simp_all
    moreover have "0 < fl (A / B)" using AB(2) by (rule less_le_trans[rotated]) simp
    ultimately have "1 / c \<le> 1 / fl (A / B)" by (intro frac_le) simp_all
    then have "fl (1 / c) \<le> fl (1 / fl (A / B))" using r(1) by (intro fl_mono) simp_all
    then show "i \<le> 21" by (simp add: i_def AB)
  qed
  have cr: "contrast_ratio L1 L2 = (if c < 1 then i else c)"
    by (simp add: contrast_ratio_def Let_def c_def i_def u_def v_def K_def)
  show "(let c = js_div (js_add (Fin L1) (lit (5 / 100))) (js_add (Fin L2) (lit (5 / 100)))
          in if js_lt c (Fin 1) then js_div (Fin 1) c else c) = Fin (contrast_ratio L1 L2)"
    unfolding su(1) sv(1) dv Let_def using inv(1) by (simp add: cr del: js_div.simps)
  show "1 \<le> contrast_ratio L1 L2" using inv(2) by (simp add: cr)
  show "contrast_ratio L1 L2 \<le> 21" using inv(3) c(2) by (simp add: cr)
qed

lemma offset_range:
  assumes "0 \<le> L" "L \<le> 1"
  shows "1 / 32 \<le> fl (L + fl (5 / 100))" "fl (L + fl (5 / 100)) \<le> 2"
proof -
  define K where "K = fl (5 / 100)"
  have K: "0 \<le> K" "K \<le> 1" using fl_unit[of "5 / 100"] by (simp_all add: K_def)
  have "fl K \<le> fl (L + K)" using assms K by (intro fl_mono) simp_all
  moreover have "1 / 32 \<le> fl K" unfolding K_def by (rule contrast_constants(1))
  ultimately show "1 / 32 \<le> fl (L + fl (5 / 100))" unfolding K_def by (rule order_trans[rotated])
  have "fl (L + K) \<le> fl 2" using assms K by (intro fl_mono) simp_all
  then show "fl (L + fl (5 / 100)) \<le> 2" using fl_of_int[of 2] by (simp add: K_def)
qed

lemma contrast_orders:
  assumes "0 \<le> L1" "L1 \<le> 1" "0 \<le> L2" "L2 \<le> 1"
  shows "\<bar>contrast_ratio L1 L2 - contrast_ratio L2 L1\<bar> \<le> contrast_ratio L1 L2 / 2 ^ 50"
  unfolding contrast_ratio_def Let_def
  by (rule ratio_orders[OF offset_range[OF assms(1,2)] offset_range[OF assms(3,4)]])

lemma channels_values:
  assumes "channels_set this"
  obtains cr cg cb where "r this = Some (Fin cr)" "g this = Some (Fin cg)" "b this = Some (Fin cb)"
    "0 \<le> cr" "cr \<le> 255" "0 \<le> cg" "cg \<le> 255" "0 \<le> cb" "cb \<le> 255"
proof -
  from assms have c: "channel_ok (r this)" "r this \<noteq> None" "channel_ok (g this)" "g this \<noteq> None"
      "channel_ok (b this)" "b this \<noteq> None"
    by (simp_all add: channels_set_def invariant_def)
  from channel_value[OF c(1,2)] obtain cr where "r this = Some (Fin cr)" "0 \<le> cr" "cr \<le> 255" by metis
  moreover from channel_value[OF c(3,4)] obtain cg where "g this = Some (Fin cg)" "0 \<le> cg" "cg \<le> 255" by metis
  moreover from channel_value[OF c(5,6)] obtain cb where "b this = Some (Fin cb)" "0 \<le> cb" "cb \<le> 255" by metis
  ultimately show ?thesis using that by blast
qed

lemma getLuminance_Fin:
  assumes "r this = Some (Fin cr)" "g this = Some (Fin cg)" "b this = Some (Fin cb)"
    "0 \<le> cr" "cr \<le> 255" "0 \<le> cg" "cg \<le> 255" "0 \<le> cb" "cb \<le> 255" "pow_accurate pw"
  shows "getLuminance pw this = Fin (relative_luminance pw cr cg cb)"
    "luminanace pw (elem (toRgbArray this) 0) (elem (toRgbArray this) 1) (elem (toRgbArray this) 2)
     = Fin (relative_luminance pw cr cg cb)"
    "0 \<le> relative_luminance pw cr cg cb" "relative_luminance pw cr cg cb \<le> 1"
  using luminanace_Fin[OF assms(4-10)] assms(1-3)
  by (simp_all add: getLuminance_def ToNumber_def elem_def toRgbArray_def)

section \<open>C5: luminance\<close>

lemma luminance_of_facts:
  assumes "channels_set this" "pow_accurate pw"
  shows "getLuminance pw this = Fin (luminance_of pw this)"
    "luminanace pw (elem (toRgbArray this) 0) (elem (toRgbArray this) 1) (elem (toRgbArray this) 2)
     = Fin (luminance_of pw this)"
    "0 \<le> luminance_of pw this" "luminance_of pw this \<le> 1"
    "\<bar>luminance_of pw this - luminance_of exact_power this\<bar> \<le> 1 / 2 ^ 48"
proof -
  from channels_values[OF assms(1)] obtain cr cg cb where
    c: "r this = Some (Fin cr)" "g this = Some (Fin cg)" "b this = Some (Fin cb)"
      "0 \<le> cr" "cr \<le> 255" "0 \<le> cg" "cg \<le> 255" "0 \<le> cb" "cb \<le> 255" by metis
  have l: "luminance_of pw' this = relative_luminance pw' cr cg cb" for pw'
    by (simp add: luminance_of_def channel_def c)
  note f = getLuminance_Fin[OF c assms(2)]
  show "getLuminance pw this = Fin (luminance_of pw this)"
    "luminanace pw (elem (toRgbArray this) 0) (elem (toRgbArray this) 1) (elem (toRgbArray this) 2)
     = Fin (luminance_of pw this)"
    "0 \<le> luminance_of pw this" "luminance_of pw this \<le> 1"
    unfolding l by (rule f)+
  show "\<bar>luminance_of pw this - luminance_of exact_power this\<bar> \<le> 1 / 2 ^ 48"
    unfolding l by (rule relative_luminance_close[OF c(4-9) assms(2)])
qed

text \<open>
  C5. For a colour with its three channels set, each an integer from 0 to 255,
  \<open>getLuminance\<close> returns the relative luminance of the specification's formula: each
  channel divided by 255, made linear as \<open>v / 12.92\<close> when \<open>v \<le> 0.03928\<close> and as
  \<open>((v + 0.055) / 1.055) ^ 2.4\<close> otherwise, and summed with the weights 0.2126, 0.7152 and
  0.0722, every operation rounded to binary64. The power is \<open>Math.pow\<close> at the exponent 2.4,
  for every implementation of it that is within one part in \<open>2^52\<close> of the exact power and
  gives at most 1 on a base of at most 1; whichever it is, the luminance is within \<open>2^-48\<close>
  of the one that the formula gives with the exact power, rounded. The result lies between
  0 and 1. The method only reads the object: it is a function of the object to a number,
  with no object after the call.
\<close>

theorem luminance_formula:
  assumes "channels_set this" "pow_accurate pw"
  shows "getLuminance pw this = Fin (luminance_of pw this)
       \<and> 0 \<le> luminance_of pw this \<and> luminance_of pw this \<le> 1
       \<and> \<bar>luminance_of pw this - luminance_of exact_power this\<bar> \<le> 1 / 2 ^ 48"
  using luminance_of_facts[OF assms] by simp

lemma power_of_one:
  assumes "pow_accurate pw"
  shows "pw 1 (fl (24 / 10)) = 1"
proof -
  have "0 \<le> fl (24 / 10)" using exponent_range(1) by linarith
  with assms[unfolded pow_accurate_def, rule_format, of 1 "fl (24 / 10)"] exponent_range(2)
  show ?thesis by simp
qed

lemma white_value:
  "fill ''#fff'' SiteColor = \<lparr>r = Some (Fin 255), g = Some (Fin 255), b = Some (Fin 255), opacity = Some (Fin 1)\<rparr>"
  by code_simp

lemma white_black_set: "channels_set (fill ''#fff'' SiteColor)" "channels_set (fill ''#000'' SiteColor)"
  unfolding white_value black_value
  by (simp_all add: channels_set_def invariant_def channel_ok_def opacity_ok_def)

lemma fa1_set: "channels_set (fill ''#fa1'' SiteColor)"
  unfolding fa1_value by (simp add: channels_set_def invariant_def channel_ok_def opacity_ok_def)

lemma white_constants:
  "\<not> fl (255 / 255) \<le> fl (3928 / 100000)"
  "fl (fl (fl (255 / 255) + fl (55 / 1000)) / fl (1055 / 1000)) = 1"
  "fl (fl (fl (1 * fl (2126 / 10000)) + fl (1 * fl (7152 / 10000))) + fl (1 * fl (722 / 10000))) = 1"
  "fl (0 / 255) \<le> fl (3928 / 100000)"
  "fl (fl (0 / 255) / fl (1292 / 100)) = 0"
  "fl (fl (fl (0 * fl (2126 / 10000)) + fl (0 * fl (7152 / 10000))) + fl (0 * fl (722 / 10000))) = 0"
  "contrast_ratio 1 0 = 21" "contrast_ratio 0 1 = 21"
  by code_simp+

lemma fa1_constants:
  "\<not> fl (170 / 255) \<le> fl (3928 / 100000)" "\<not> fl (17 / 255) \<le> fl (3928 / 100000)"
  by code_simp+

lemma white_black_luminance:
  "pow_accurate pw \<Longrightarrow> luminance_of pw (fill ''#fff'' SiteColor) = 1"
  "luminance_of pw (fill ''#000'' SiteColor) = 0"
proof -
  have "srgb_linear pw 0 = 0"
    unfolding srgb_linear_def Let_def using white_constants(4,5) by (simp only: if_True)
  then show "luminance_of pw (fill ''#000'' SiteColor) = 0"
    unfolding black_value luminance_of_def relative_luminance_def
    using white_constants(6) by (simp add: channel_def)
  assume "pow_accurate pw"
  then have "pw 1 (fl (24 / 10)) = 1" by (rule power_of_one)
  then have "srgb_linear pw 255 = 1"
    unfolding srgb_linear_power[OF white_constants(1)] white_constants(2) by (simp only: fl_numeral)
  then show "luminance_of pw (fill ''#fff'' SiteColor) = 1"
    unfolding white_value luminance_of_def relative_luminance_def
    using white_constants(3) by (simp add: channel_def)
qed

theorem luminance_formula_witness:
  "channels_set (fill ''#fa1'' SiteColor) \<and> channels_set (fill ''#fff'' SiteColor)
   \<and> channels_set (fill ''#000'' SiteColor) \<and> pow_accurate exact_power
   \<and> getLuminance exact_power (fill ''#fa1'' SiteColor) = Fin (relative_luminance exact_power 255 170 17)
   \<and> srgb_linear exact_power 170
       = fl (fl (fl (fl (170 / 255) + fl (55 / 1000)) / fl (1055 / 1000)) powr fl (24 / 10))
   \<and> 0 \<le> relative_luminance exact_power 255 170 17 \<and> relative_luminance exact_power 255 170 17 \<le> 1
   \<and> getLuminance exact_power (fill ''#fff'' SiteColor) = Fin 1
   \<and> getLuminance exact_power (fill ''#000'' SiteColor) = Fin 0"
proof -
  have l: "luminance_of exact_power (fill ''#fa1'' SiteColor) = relative_luminance exact_power 255 170 17"
    unfolding fa1_value by (simp add: luminance_of_def channel_def)
  have p: "srgb_linear exact_power 170
       = fl (fl (fl (fl (170 / 255) + fl (55 / 1000)) / fl (1055 / 1000)) powr fl (24 / 10))"
    unfolding srgb_linear_power[OF fa1_constants(1)] by (simp only: exact_power_def)
  from luminance_formula[OF fa1_set pow_accurate_exact]
    luminance_formula[OF white_black_set(1) pow_accurate_exact]
    luminance_formula[OF white_black_set(2) pow_accurate_exact]
    white_black_luminance(1)[OF pow_accurate_exact] white_black_luminance(2)[of exact_power]
    fa1_set white_black_set pow_accurate_exact p
  show ?thesis unfolding l by simp
qed

section \<open>C6: contrast\<close>

lemma compareContrastTo_Fin:
  assumes "channels_set this" "channels_set color" "pow_accurate pw"
  shows "compareContrastTo pw color this
         = Fin (contrast_ratio (luminance_of pw this) (luminance_of pw color))"
    "1 \<le> contrast_ratio (luminance_of pw this) (luminance_of pw color)"
    "contrast_ratio (luminance_of pw this) (luminance_of pw color) \<le> 21"
    "\<bar>contrast_ratio (luminance_of pw this) (luminance_of pw color)
      - contrast_ratio (luminance_of pw color) (luminance_of pw this)\<bar>
       \<le> contrast_ratio (luminance_of pw this) (luminance_of pw color) / 2 ^ 50"
proof -
  note a = luminance_of_facts[OF assms(1,3)] and b = luminance_of_facts[OF assms(2,3)]
  note c = contrast_Fin[OF a(3,4) b(3,4)]
  show "compareContrastTo pw color this
         = Fin (contrast_ratio (luminance_of pw this) (luminance_of pw color))"
    unfolding compareContrastTo_def contrast_def a(2) b(2) by (rule c(1))
  show "1 \<le> contrast_ratio (luminance_of pw this) (luminance_of pw color)"
    "contrast_ratio (luminance_of pw this) (luminance_of pw color) \<le> 21"
    by (rule c(2) c(3))+
  show "\<bar>contrast_ratio (luminance_of pw this) (luminance_of pw color)
      - contrast_ratio (luminance_of pw color) (luminance_of pw this)\<bar>
       \<le> contrast_ratio (luminance_of pw this) (luminance_of pw color) / 2 ^ 50"
    by (rule contrast_orders[OF a(3,4) b(3,4)])
qed

lemma blue3_value:
  "fill ''#000003'' SiteColor = \<lparr>r = Some (Fin 0), g = Some (Fin 0), b = Some (Fin 3), opacity = Some (Fin 1)\<rparr>"
  "fill ''#000000'' SiteColor = \<lparr>r = Some (Fin 0), g = Some (Fin 0), b = Some (Fin 0), opacity = Some (Fin 1)\<rparr>"
  by code_simp+

lemma blue3_set: "channels_set (fill ''#000003'' SiteColor)" "channels_set (fill ''#000000'' SiteColor)"
  unfolding blue3_value
  by (simp_all add: channels_set_def invariant_def channel_ok_def opacity_ok_def)

lemma blue3_constants:
  "fl (3 / 255) \<le> fl (3928 / 100000)"
  "fl (0 / 255) \<le> fl (3928 / 100000)"
  "contrast_ratio
     (fl (fl (fl (fl (fl (0 / 255) / fl (1292 / 100)) * fl (2126 / 10000))
              + fl (fl (fl (0 / 255) / fl (1292 / 100)) * fl (7152 / 10000)))
          + fl (fl (fl (0 / 255) / fl (1292 / 100)) * fl (722 / 10000))))
     (fl (fl (fl (fl (fl (0 / 255) / fl (1292 / 100)) * fl (2126 / 10000))
              + fl (fl (fl (0 / 255) / fl (1292 / 100)) * fl (7152 / 10000)))
          + fl (fl (fl (3 / 255) / fl (1292 / 100)) * fl (722 / 10000))))
   = 4509521315461849 / 2 ^ 52"
  "contrast_ratio
     (fl (fl (fl (fl (fl (0 / 255) / fl (1292 / 100)) * fl (2126 / 10000))
              + fl (fl (fl (0 / 255) / fl (1292 / 100)) * fl (7152 / 10000)))
          + fl (fl (fl (3 / 255) / fl (1292 / 100)) * fl (722 / 10000))))
     (fl (fl (fl (fl (fl (0 / 255) / fl (1292 / 100)) * fl (2126 / 10000))
              + fl (fl (fl (0 / 255) / fl (1292 / 100)) * fl (7152 / 10000)))
          + fl (fl (fl (0 / 255) / fl (1292 / 100)) * fl (722 / 10000))))
   = 4509521315461848 / 2 ^ 52"
  by code_simp+

lemma blue3_luminance:
  "luminance_of pw (fill ''#000003'' SiteColor) =
     fl (fl (fl (fl (fl (0 / 255) / fl (1292 / 100)) * fl (2126 / 10000))
              + fl (fl (fl (0 / 255) / fl (1292 / 100)) * fl (7152 / 10000)))
          + fl (fl (fl (3 / 255) / fl (1292 / 100)) * fl (722 / 10000)))"
  "luminance_of pw (fill ''#000000'' SiteColor) =
     fl (fl (fl (fl (fl (0 / 255) / fl (1292 / 100)) * fl (2126 / 10000))
              + fl (fl (fl (0 / 255) / fl (1292 / 100)) * fl (7152 / 10000)))
          + fl (fl (fl (0 / 255) / fl (1292 / 100)) * fl (722 / 10000)))"
  unfolding blue3_value luminance_of_def relative_luminance_def
  by (simp_all only: channel_def option.case jsnum.case color.simps
      srgb_linear_small[OF blue3_constants(1)] srgb_linear_small[OF blue3_constants(2)])

lemma blue3_contrast:
  assumes "pow_accurate pw"
  shows "compareContrastTo pw (fill ''#000003'' SiteColor) (fill ''#000000'' SiteColor)
           = Fin (4509521315461849 / 2 ^ 52)"
    "compareContrastTo pw (fill ''#000000'' SiteColor) (fill ''#000003'' SiteColor)
           = Fin (4509521315461848 / 2 ^ 52)"
  using compareContrastTo_Fin(1)[OF blue3_set(2) blue3_set(1) assms]
    compareContrastTo_Fin(1)[OF blue3_set(1) blue3_set(2) assms]
  by (simp_all only: blue3_luminance blue3_constants)

text \<open>
  C6, as stated, fails: the contrast is not symmetric. With a correctly rounded power,
  \<open>#000000\<close> against \<open>#000003\<close> gives \<open>4509521315461849 / 2^52\<close> and \<open>#000003\<close> against
  \<open>#000000\<close> gives \<open>4509521315461848 / 2^52\<close>: in one order the result is the rounded
  quotient, in the other the rounded inverse of the rounded inverse quotient, and the two
  differ in the last bit. (Both channels are in the linear part of the formula, so the same
  holds for any other power function.)
\<close>

theorem contrast_counterexample:
  "compareContrastTo exact_power (fill ''#000003'' SiteColor) (fill ''#000000'' SiteColor)
     = Fin (4509521315461849 / 2 ^ 52)
   \<and> compareContrastTo exact_power (fill ''#000000'' SiteColor) (fill ''#000003'' SiteColor)
     = Fin (4509521315461848 / 2 ^ 52)"
  using blue3_contrast[OF pow_accurate_exact] by (simp only: simp_thms)

text \<open>
  C6, amended. For two colours \<open>a\<close> and \<open>b\<close> with their channels set, each an integer from 0
  to 255, \<open>a.compareContrastTo(b)\<close> is \<open>(La + 0.05) / (Lb + 0.05)\<close>, inverted when it is less
  than 1, where \<open>La\<close> and \<open>Lb\<close> are the luminances of \<open>a\<close> and \<open>b\<close> and every operation is
  rounded; the result is at least 1 and at most 21. It is symmetric up to the rounding:
  \<open>a.compareContrastTo(b)\<close> and \<open>b.compareContrastTo(a)\<close> differ by at most
  \<open>a.compareContrastTo(b) / 2^50\<close>. White against black and black against white both give
  exactly 21.
\<close>

theorem contrast_formula:
  assumes "channels_set this" "channels_set color" "pow_accurate pw"
  shows "compareContrastTo pw color this
           = Fin (contrast_ratio (luminance_of pw this) (luminance_of pw color))
       \<and> compareContrastTo pw this color
           = Fin (contrast_ratio (luminance_of pw color) (luminance_of pw this))
       \<and> 1 \<le> contrast_ratio (luminance_of pw this) (luminance_of pw color)
       \<and> contrast_ratio (luminance_of pw this) (luminance_of pw color) \<le> 21
       \<and> \<bar>contrast_ratio (luminance_of pw this) (luminance_of pw color)
           - contrast_ratio (luminance_of pw color) (luminance_of pw this)\<bar>
            \<le> contrast_ratio (luminance_of pw this) (luminance_of pw color) / 2 ^ 50
       \<and> compareContrastTo pw (fill ''#000'' SiteColor) (fill ''#fff'' SiteColor) = Fin 21
       \<and> compareContrastTo pw (fill ''#fff'' SiteColor) (fill ''#000'' SiteColor) = Fin 21"
proof -
  have "compareContrastTo pw (fill ''#000'' SiteColor) (fill ''#fff'' SiteColor) = Fin 21"
       "compareContrastTo pw (fill ''#fff'' SiteColor) (fill ''#000'' SiteColor) = Fin 21"
    using compareContrastTo_Fin(1)[OF white_black_set(1) white_black_set(2) assms(3)]
      compareContrastTo_Fin(1)[OF white_black_set(2) white_black_set(1) assms(3)]
    by (simp_all only: white_black_luminance(1)[OF assms(3)] white_black_luminance(2) white_constants)
  then show ?thesis
    using compareContrastTo_Fin[OF assms] compareContrastTo_Fin(1)[OF assms(2,1,3)] by blast
qed

theorem contrast_formula_witness:
  "channels_set (fill ''#000000'' SiteColor) \<and> channels_set (fill ''#000003'' SiteColor)
   \<and> pow_accurate exact_power
   \<and> compareContrastTo exact_power (fill ''#000003'' SiteColor) (fill ''#000000'' SiteColor)
       = Fin (4509521315461849 / 2 ^ 52)
   \<and> compareContrastTo exact_power (fill ''#000000'' SiteColor) (fill ''#000003'' SiteColor)
       = Fin (4509521315461848 / 2 ^ 52)
   \<and> \<bar>4509521315461849 / 2 ^ 52 - 4509521315461848 / 2 ^ 52\<bar>
       \<le> (4509521315461849 / 2 ^ 52 :: real) / 2 ^ 50
   \<and> compareContrastTo exact_power (fill ''#000'' SiteColor) (fill ''#fff'' SiteColor) = Fin 21
   \<and> compareContrastTo exact_power (fill ''#fff'' SiteColor) (fill ''#000'' SiteColor) = Fin 21"
proof -
  note t = contrast_formula[OF blue3_set(2) blue3_set(1) pow_accurate_exact]
  note v = blue3_contrast[OF pow_accurate_exact]
  have e: "contrast_ratio (luminance_of exact_power (fill ''#000000'' SiteColor))
             (luminance_of exact_power (fill ''#000003'' SiteColor)) = 4509521315461849 / 2 ^ 52"
    "contrast_ratio (luminance_of exact_power (fill ''#000003'' SiteColor))
             (luminance_of exact_power (fill ''#000000'' SiteColor)) = 4509521315461848 / 2 ^ 52"
    using t v by simp_all
  from t have "\<bar>4509521315461849 / 2 ^ 52 - 4509521315461848 / 2 ^ 52\<bar>
       \<le> (4509521315461849 / 2 ^ 52 :: real) / 2 ^ 50" unfolding e by blast
  with t v blue3_set pow_accurate_exact show ?thesis by blast
qed

end
